theory Spec2Isabelle
  imports Main "HOL-Library.AList" "HOL-Library.Word"
begin

section \<open>Data model of the Nibe heat pump coordinator\<close>

text \<open>
  The development embeds \<^verbatim>\<open>homeassistant/components/nibe_heatpump/__init__.py\<close>:
  the class \<^verbatim>\<open>Coordinator\<close> with \<^verbatim>\<open>get_coil_value\<close>, \<^verbatim>\<open>get_coil_float\<close>,
  \<^verbatim>\<open>async_write_coil\<close> and \<^verbatim>\<open>_async_update_data\<close>.

  A coil value is \<^verbatim>\<open>int | str | float | None\<close>. A Python float is the 64 bits of its
  IEEE 754 double; it is falsy exactly when it is one of the two zeros, that is when the
  63 bits below the sign bit are all zero.
\<close>

type_synonym pyfloat = "64 word"

datatype pyval = IntV int | FloatV pyfloat | StrV string | NoneV

fun truthy :: "pyval \<Rightarrow> bool" where
  "truthy (IntV i) = (i \<noteq> 0)"
| "truthy (FloatV f) = (take_bit 63 f \<noteq> 0)"
| "truthy (StrV s) = (s \<noteq> [])"
| "truthy NoneV = False"

text \<open>
  The exceptions of the module. \<^verbatim>\<open>RetryError\<close> (tenacity) carries the exception of the
  last attempt, \<^verbatim>\<open>UpdateFailed\<close> the exception it was raised from. \<open>OtherError\<close>
  stands for any exception class the module does not name.
\<close>

datatype exn =
    CoilReadException
  | CoilNotFoundException
  | RetryError exn
  | UpdateFailed exn
  | AssertionError
  | OtherError string

text \<open>
  A \<^verbatim>\<open>Coil\<close> is a mutable object that the heat pump's coil table, the cache and the
  entities share. Its identity \<open>oid\<close> and its \<open>address\<close> are fixed when it is built
  (the module never assigns \<^verbatim>\<open>coil.address\<close>); its \<^verbatim>\<open>value\<close> attribute is mutable and
  lives in the object store \<open>store\<close> of the state, so that two references to one object
  see one value.
\<close>

record coil =
  oid :: nat
  address :: int

type_synonym callback = nat

text \<open>
  What can be observed of a run: the calls to the external collaborators
  (\<^verbatim>\<open>heatpump.get_coil_by_address\<close>, \<^verbatim>\<open>connection.read_coil\<close>,
  \<^verbatim>\<open>connection.write_coil\<close>, each with its outcome where it has one) and the calls of the
  listeners' update callbacks, each with the cache as the callback would read it at that
  moment (address and value of every cached coil, in dictionary order).
\<close>

datatype event =
    GetCoil int
  | ReadCoil coil "exn + coil"
  | WriteCoil coil "exn + coil"
  | Callback callback "(int \<times> pyval) list"

text \<open>
  The state: \<^verbatim>\<open>self.data\<close> (a dict, kept as an association list in insertion order),
  the values of \<^verbatim>\<open>self._listeners\<close> in registration order (an update callback and its
  context; the context is \<open>Some\<close> of the addresses of a set, in the set's iteration order,
  or \<open>None\<close> when it is not a set), the object store, the state of the connection
  and the trace of events so far.
\<close>

record 'c state =
  data :: "(int \<times> coil) list"
  listeners :: "(callback \<times> int list option) list"
  store :: "coil \<Rightarrow> pyval"
  conn :: 'c
  trace :: "event list"

text \<open>
  The connection is an external collaborator: a call gets the coil, may change the
  connection's own state and the objects, and returns a coil or raises.
\<close>

type_synonym 'c io = "coil \<Rightarrow> (coil \<Rightarrow> pyval) \<Rightarrow> 'c \<Rightarrow> (exn + coil) \<times> (coil \<Rightarrow> pyval) \<times> 'c"

definition COIL_READ_RETRIES :: nat where
  "COIL_READ_RETRIES = 5"

definition view :: "(coil \<Rightarrow> pyval) \<Rightarrow> (int \<times> coil) list \<Rightarrow> (int \<times> pyval) list" where
  "view sto d = map (\<lambda>(k, c). (k, sto c)) d"

section \<open>Reading the cache\<close>

text \<open>
  \<^verbatim>\<open>get_coil_value\<close>: \<^verbatim>\<open>if coil := self.data.get(coil.address): return coil.value\<close>,
  else \<^verbatim>\<open>None\<close>. A \<^verbatim>\<open>Coil\<close> object is truthy (the class defines neither
  \<^verbatim>\<open>__bool__\<close> nor \<^verbatim>\<open>__len__\<close>).
\<close>

definition get_coil_value :: "'c state \<Rightarrow> coil \<Rightarrow> pyval" where
  "get_coil_value st c =
     (case map_of (data st) (address c) of
        Some c' \<Rightarrow> store st c'
      | None \<Rightarrow> NoneV)"

text \<open>
  \<^verbatim>\<open>get_coil_float\<close>: \<^verbatim>\<open>if value := self.get_coil_value(coil): return float(value)\<close>,
  else \<^verbatim>\<open>None\<close>. The builtin \<^verbatim>\<open>float\<close> is the parameter \<open>py_float\<close>: it rounds an
  int, parses a string, and may raise.
\<close>

definition get_coil_float :: "(pyval \<Rightarrow> exn + pyfloat) \<Rightarrow> 'c state \<Rightarrow> coil \<Rightarrow> exn + pyfloat option" where
  "get_coil_float py_float st c =
     (let v = get_coil_value st c in
      if truthy v then (case py_float v of Inl e \<Rightarrow> Inl e | Inr f \<Rightarrow> Inr (Some f))
      else Inr None)"

section \<open>Notifying listeners\<close>

text \<open>
  \<^verbatim>\<open>for update_callback in callback_list: update_callback()\<close>. An update callback is
  a procedure of the listener, called with no argument; the call is an event of the trace.
  A callback is taken to return normally and to leave the coordinator's state as it is: it
  reads the cache, which the event records.
\<close>

definition call :: "callback \<Rightarrow> 'c state \<Rightarrow> 'c state" where
  "call cb st = st\<lparr>trace := trace st @ [Callback cb (view (store st) (data st))]\<rparr>"

definition run_callbacks :: "callback list \<Rightarrow> 'c state \<Rightarrow> 'c state" where
  "run_callbacks callback_list st = fold call callback_list st"

text \<open>
  Modelled from the spec: \<^verbatim>\<open>DataUpdateCoordinator.async_update_listeners\<close>, a method of
  the base class (\<^verbatim>\<open>homeassistant/helpers/update_coordinator.py\<close>), whose source is
  missing here. It is the fanout of a notification to the registered listeners. The module
  calls it with no argument, so it cannot choose listeners by the address written: every
  registered update callback is called once, in registration order.
\<close>

definition async_update_listeners :: "'c state \<Rightarrow> 'c state" where
  "async_update_listeners st = run_callbacks (map fst (listeners st)) st"

section \<open>Writing a coil\<close>

definition connection_write_coil :: "'c io \<Rightarrow> coil \<Rightarrow> 'c state \<Rightarrow> (exn + coil) \<times> 'c state" where
  "connection_write_coil wr c st =
     (case wr c (store st) (conn st) of
        (out, sto, cn) \<Rightarrow>
          (out, st\<lparr>store := sto, conn := cn, trace := trace st @ [WriteCoil c out]\<rparr>))"

text \<open>
  \<^verbatim>\<open>async_write_coil\<close>. \<^verbatim>\<open>coil.value = value\<close> runs the setter of the coil
  object that the caller passed. The setter belongs to the \<^verbatim>\<open>Coil\<close> class of the
  external library and is the parameter \<open>set_value\<close>: it raises (a value out of range
  or of the wrong type) or stores a value, which need not be the one given (a string is
  upper-cased on a coil with mappings); \<open>assign_value\<close> is the assignment. Then
  \<^verbatim>\<open>coil = await self.connection.write_coil(coil)\<close> sends the coil; an exception of the
  setter or of the write leaves the method at once. Only when the write returns and
  \<^verbatim>\<open>self.data\<close> is not empty is the returned coil stored under its address and are the
  listeners updated.
\<close>

definition assign_value :: "(coil \<Rightarrow> pyval \<Rightarrow> exn + pyval) \<Rightarrow> coil \<Rightarrow> pyval \<Rightarrow> 'c state \<Rightarrow> exn + 'c state" where
  "assign_value set_value c v st =
     (case set_value c v of
        Inl e \<Rightarrow> Inl e
      | Inr w \<Rightarrow> Inr (st\<lparr>store := (store st)(c := w)\<rparr>))"

definition async_write_coil :: "(coil \<Rightarrow> pyval \<Rightarrow> exn + pyval) \<Rightarrow> 'c io \<Rightarrow> coil \<Rightarrow> pyval \<Rightarrow> 'c state
    \<Rightarrow> (exn + unit) \<times> 'c state" where
  "async_write_coil set_value wr c v st =
     (case assign_value set_value c v st of
        Inl e \<Rightarrow> (Inl e, st)
      | Inr st1 \<Rightarrow>
          (case connection_write_coil wr c st1 of
             (Inl e, st2) \<Rightarrow> (Inl e, st2)
           | (Inr c', st2) \<Rightarrow>
               if data st2 \<noteq> [] then
                 (Inr (), async_update_listeners (st2\<lparr>data := AList.update (address c') c' (data st2)\<rparr>))
               else (Inr (), st2)))"

section \<open>The refresh cycle\<close>

definition connection_read_coil :: "'c io \<Rightarrow> coil \<Rightarrow> 'c state \<Rightarrow> (exn + coil) \<times> 'c state" where
  "connection_read_coil rd c st =
     (case rd c (store st) (conn st) of
        (out, sto, cn) \<Rightarrow>
          (out, st\<lparr>store := sto, conn := cn, trace := trace st @ [ReadCoil c out]\<rparr>))"

text \<open>
  The inner \<^verbatim>\<open>read_coil\<close>, wrapped by tenacity's
  \<^verbatim>\<open>retry(retry=retry_if_exception_type(CoilReadException), stop=stop_after_attempt(COIL_READ_RETRIES))\<close>:
  an attempt that returns ends the loop; one that raises another exception lets it through;
  one that raises \<^verbatim>\<open>CoilReadException\<close> is repeated unless the attempt number has
  reached the bound, in which case \<^verbatim>\<open>RetryError\<close> is raised. Attempts are numbered from 1.
\<close>

function read_coil :: "'c io \<Rightarrow> nat \<Rightarrow> coil \<Rightarrow> 'c state \<Rightarrow> (exn + coil) \<times> 'c state" where
  "read_coil rd attempt_number c st =
     (case connection_read_coil rd c st of
        (Inr c', st') \<Rightarrow> (Inr c', st')
      | (Inl e, st') \<Rightarrow>
          if e = CoilReadException then
            (if COIL_READ_RETRIES \<le> attempt_number then (Inl (RetryError e), st')
             else read_coil rd (attempt_number + 1) c st')
          else (Inl e, st'))"
  by pat_completeness auto
termination
  by (relation "measure (\<lambda>(rd, n, c, st). COIL_READ_RETRIES - n)") auto

declare read_coil.simps [simp del]

text \<open>
  The first loop: \<^verbatim>\<open>callbacks[address].append(update_callback)\<close> on a
  \<^verbatim>\<open>defaultdict(list)\<close>, for every address of every listener's context, after the
  assertion that the context is a set.
\<close>

definition add_context :: "callback \<Rightarrow> int list \<Rightarrow> (int \<times> callback list) list \<Rightarrow> (int \<times> callback list) list" where
  "add_context update_callback context callbacks =
     fold (\<lambda>a cbs. AList.update_with_aux [] a (\<lambda>l. l @ [update_callback]) cbs) context callbacks"

fun collect_callbacks :: "(callback \<times> int list option) list \<Rightarrow> (int \<times> callback list) list \<Rightarrow> exn + (int \<times> callback list) list" where
  "collect_callbacks [] callbacks = Inr callbacks"
| "collect_callbacks ((update_callback, None) # ls) callbacks = Inl AssertionError"
| "collect_callbacks ((update_callback, Some context) # ls) callbacks =
     collect_callbacks ls (add_context update_callback context callbacks)"

text \<open>
  The body of the \<^verbatim>\<open>try\<close>: look the coil up, read it (with the retries), and give back
  the coil looked up (whose address is the key) and the coil read (the value stored).
\<close>

definition fetch :: "(int \<Rightarrow> exn + coil) \<Rightarrow> 'c io \<Rightarrow> int \<Rightarrow> 'c state \<Rightarrow> (exn + coil \<times> coil) \<times> 'c state" where
  "fetch hp rd a st =
     (let st0 = st\<lparr>trace := trace st @ [GetCoil a]\<rparr> in
      case hp a of
        Inl e \<Rightarrow> (Inl e, st0)
      | Inr c \<Rightarrow>
          (case read_coil rd 1 c st0 of
             (Inl e, st1) \<Rightarrow> (Inl e, st1)
           | (Inr c', st1) \<Rightarrow> (Inr (c, c'), st1)))"

text \<open>\<^verbatim>\<open>except (CoilReadException, RetryError)\<close>\<close>

fun read_failed :: "exn \<Rightarrow> bool" where
  "read_failed CoilReadException = True"
| "read_failed (RetryError e) = True"
| "read_failed e = False"

text \<open>
  One turn of the second loop, for one item \<open>(address, callback_list)\<close> of
  \<^verbatim>\<open>callbacks\<close>. The state of the loop is the state and the local \<^verbatim>\<open>result\<close>;
  \<open>Some e\<close> says that the turn raised \<open>e\<close>.
\<close>

definition update_one :: "(int \<Rightarrow> exn + coil) \<Rightarrow> 'c io \<Rightarrow> int \<times> callback list
    \<Rightarrow> 'c state \<times> (int \<times> coil) list \<Rightarrow> exn option \<times> 'c state \<times> (int \<times> coil) list" where
  "update_one hp rd item sr =
     (case (item, sr) of ((a, callback_list), (st, result)) \<Rightarrow>
        (case fetch hp rd a st of
           (Inr (c, c'), st1) \<Rightarrow>
             (None,
              run_callbacks callback_list (st1\<lparr>data := AList.update (address c) c' (data st1)\<rparr>),
              AList.update (address c) c' result)
         | (Inl e, st1) \<Rightarrow>
             if read_failed e then (Some (UpdateFailed e), st1, result)
             else if e = CoilNotFoundException then (None, run_callbacks callback_list st1, result)
             else (Some e, st1, result)))"

fun update_loop :: "(int \<Rightarrow> exn + coil) \<Rightarrow> 'c io \<Rightarrow> (int \<times> callback list) list
    \<Rightarrow> 'c state \<times> (int \<times> coil) list \<Rightarrow> exn option \<times> 'c state \<times> (int \<times> coil) list" where
  "update_loop hp rd [] sr = (None, sr)"
| "update_loop hp rd (item # items) sr =
     (case update_one hp rd item sr of
        (None, sr') \<Rightarrow> update_loop hp rd items sr'
      | (Some e, sr') \<Rightarrow> (Some e, sr'))"

text \<open>\<^verbatim>\<open>_async_update_data\<close>: it returns \<^verbatim>\<open>result\<close> or raises.\<close>

definition async_update_data :: "(int \<Rightarrow> exn + coil) \<Rightarrow> 'c io \<Rightarrow> 'c state \<Rightarrow> (exn + (int \<times> coil) list) \<times> 'c state" where
  "async_update_data hp rd st =
     (case collect_callbacks (listeners st) [] of
        Inl e \<Rightarrow> (Inl e, st)
      | Inr callbacks \<Rightarrow>
          (case update_loop hp rd callbacks (st, []) of
             (None, st', result) \<Rightarrow> (Inr result, st')
           | (Some e, st', result) \<Rightarrow> (Inl e, st')))"

section \<open>The entity\<close>

text \<open>
  A \<^verbatim>\<open>CoilEntity\<close> keeps a reference \<^verbatim>\<open>self._coil\<close>.
  \<^verbatim>\<open>_handle_coordinator_update\<close> rebinds it to the coil that the cache holds for its
  address, if there is one (the subclass hook and the write of the entity's state that
  follow are outside the coordinator and are left out); the function gives the new
  reference. \<^verbatim>\<open>_async_write_coil\<close> passes the reference to the coordinator's
  \<^verbatim>\<open>async_write_coil\<close>.
\<close>

definition handle_coordinator_update :: "'c state \<Rightarrow> coil \<Rightarrow> coil" where
  "handle_coordinator_update st own =
     (case map_of (data st) (address own) of
        None \<Rightarrow> own
      | Some c \<Rightarrow> c)"

definition entity_async_write_coil :: "(coil \<Rightarrow> pyval \<Rightarrow> exn + pyval) \<Rightarrow> 'c io \<Rightarrow> coil \<Rightarrow> pyval \<Rightarrow> 'c state
    \<Rightarrow> (exn + unit) \<times> 'c state" where
  "entity_async_write_coil set_value wr own v st = async_write_coil set_value wr own v st"

section \<open>Observations on a trace\<close>

text \<open>
  The addresses looked up, the coils passed to \<^verbatim>\<open>connection.read_coil\<close>, the reads that
  returned (the coil passed and the coil returned) and the callbacks called, each in the
  order of the trace.
\<close>

definition looked_up :: "event list \<Rightarrow> int list" where
  "looked_up tr = concat (map (\<lambda>ev. case ev of GetCoil a \<Rightarrow> [a] | _ \<Rightarrow> []) tr)"

definition reads :: "event list \<Rightarrow> coil list" where
  "reads tr = concat (map (\<lambda>ev. case ev of ReadCoil c out \<Rightarrow> [c] | _ \<Rightarrow> []) tr)"

definition successes :: "event list \<Rightarrow> (coil \<times> coil) list" where
  "successes tr = concat (map (\<lambda>ev. case ev of ReadCoil c (Inr c') \<Rightarrow> [(c, c')] | _ \<Rightarrow> []) tr)"

definition notified :: "event list \<Rightarrow> callback list" where
  "notified tr = concat (map (\<lambda>ev. case ev of Callback cb snap \<Rightarrow> [cb] | _ \<Rightarrow> []) tr)"

text \<open>The update that a read which returned makes to a dictionary keyed by address.\<close>

definition upd :: "coil \<times> coil \<Rightarrow> (int \<times> coil) list \<Rightarrow> (int \<times> coil) list" where
  "upd p d = AList.update (address (fst p)) (snd p) d"

section \<open>Example inputs\<close>

text \<open>
  A coil table that knows the given addresses and raises \<^verbatim>\<open>CoilNotFoundException\<close> for
  any other; a connection (its state counts the calls) whose reads raise
  \<^verbatim>\<open>CoilReadException\<close> for the coils at the given addresses and otherwise set the
  coil's value to 5 and return the coil; the setter of a numeric coil without bounds (it
  stores an int, a float or \<^verbatim>\<open>None\<close> as given and refuses a string) and the setter of a
  coil whose mappings know \<^verbatim>\<open>ON\<close> (it upper-cases a string and refuses one it does not
  know); a write path that acknowledges by returning the coil, and one that raises; a coordinator that has just been built, and one whose cache
  holds the coil at address 10 with value 5.
\<close>

definition coil_at :: "int \<Rightarrow> coil" where
  "coil_at a = \<lparr>oid = nat a, address = a\<rparr>"

definition heatpump_with :: "int list \<Rightarrow> int \<Rightarrow> exn + coil" where
  "heatpump_with known a = (if a \<in> set known then Inr (coil_at a) else Inl CoilNotFoundException)"

definition read_failing :: "int list \<Rightarrow> nat io" where
  "read_failing bad c sto n =
     (if address c \<in> set bad then (Inl CoilReadException, sto, Suc n)
      else (Inr c, sto(c := IntV 5), Suc n))"

definition setter_numeric :: "coil \<Rightarrow> pyval \<Rightarrow> exn + pyval" where
  "setter_numeric c v = (case v of StrV s \<Rightarrow> Inl AssertionError | _ \<Rightarrow> Inr v)"

definition setter_mapped :: "coil \<Rightarrow> pyval \<Rightarrow> exn + pyval" where
  "setter_mapped c v =
     (case v of
        NoneV \<Rightarrow> Inr NoneV
      | StrV s \<Rightarrow> if s = ''on'' \<or> s = ''ON'' then Inr (StrV ''ON'') else Inl AssertionError
      | _ \<Rightarrow> Inl (OtherError ''AttributeError''))"

definition write_ok :: "nat io" where
  "write_ok c sto n = (Inr c, sto, Suc n)"

definition write_failing :: "nat io" where
  "write_failing c sto n = (Inl (OtherError ''CoilWriteException''), sto, Suc n)"

definition initial :: "(callback \<times> int list option) list \<Rightarrow> nat state" where
  "initial ls = \<lparr>data = [], listeners = ls, store = (\<lambda>c. NoneV), conn = 0, trace = []\<rparr>"

definition refreshed :: "(callback \<times> int list option) list \<Rightarrow> nat state" where
  "refreshed ls =
     \<lparr>data = [(10, coil_at 10)], listeners = ls, store = (\<lambda>c. NoneV)(coil_at 10 := IntV 5),
      conn = 1, trace = []\<rparr>"

text \<open>
  A stand-in for the builtin \<^verbatim>\<open>float\<close> on the values the examples use: a float is
  itself, the int 5 is 5.0 (the double \<^verbatim>\<open>0x4014000000000000\<close>), a string or
  \<^verbatim>\<open>None\<close> raises.
\<close>

definition float_of_five :: "pyval \<Rightarrow> exn + pyfloat" where
  "float_of_five v =
     (case v of
        FloatV f \<Rightarrow> Inr f
      | IntV i \<Rightarrow> if i = 5 then Inr 0x4014000000000000 else Inl (OtherError ''not modelled'')
      | _ \<Rightarrow> Inl (OtherError ''ValueError''))"

section \<open>Facts about the trace observations\<close>

lemma looked_up_append [simp]: "looked_up (xs @ ys) = looked_up xs @ looked_up ys"
  by (simp add: looked_up_def)
lemma reads_append [simp]: "reads (xs @ ys) = reads xs @ reads ys"
  by (simp add: reads_def)
lemma successes_append [simp]: "successes (xs @ ys) = successes xs @ successes ys"
  by (simp add: successes_def)
lemma notified_append [simp]: "notified (xs @ ys) = notified xs @ notified ys"
  by (simp add: notified_def)

lemma run_callbacks_eq:
  "run_callbacks cbs st = st\<lparr>trace := trace st @ map (\<lambda>cb. Callback cb (view (store st) (data st))) cbs\<rparr>"
  unfolding run_callbacks_def
  by (induction cbs arbitrary: st) (simp_all add: call_def)

lemma obs_callbacks [simp]:
  "looked_up (map (\<lambda>cb. Callback cb snap) cbs) = []"
  "reads (map (\<lambda>cb. Callback cb snap) cbs) = []"
  "successes (map (\<lambda>cb. Callback cb snap) cbs) = []"
  "notified (map (\<lambda>cb. Callback cb snap) cbs) = cbs"
  by (induction cbs) (simp_all add: looked_up_def reads_def successes_def notified_def)

lemma connection_read_coil_fields:
  assumes "connection_read_coil rd c st = (out, st')"
  shows "data st' = data st" "listeners st' = listeners st" "trace st' = trace st @ [ReadCoil c out]"
  using assms by (auto simp: connection_read_coil_def split: prod.splits)

lemma read_coil_fields:
  "read_coil rd n c st = (out, st') \<Longrightarrow> data st' = data st \<and> listeners st' = listeners st"
proof (induction rd n c st rule: read_coil.induct)
  case (1 rd n c st)
  obtain raw s1 where r: "connection_read_coil rd c st = (raw, s1)" by fastforce
  note f = connection_read_coil_fields[OF r]
  show ?case
  proof (cases raw)
    case (Inr c')
    with 1(2) r f show ?thesis by (simp add: read_coil.simps[of rd n c st])
  next
    case (Inl e)
    show ?thesis
    proof (cases "e = CoilReadException \<and> \<not> COIL_READ_RETRIES \<le> n")
      case True
      with 1(2) r Inl have "read_coil rd (n + 1) c s1 = (out, st')"
        by (simp add: read_coil.simps[of rd n c st])
      from 1(1)[OF r[symmetric] Inl _ _ this] True f show ?thesis by simp
    next
      case False
      with 1(2) r Inl f show ?thesis
        by (auto simp add: read_coil.simps[of rd n c st] split: if_splits)
    qed
  qed
qed

lemma obs_Nil [simp]: "looked_up [] = []" "reads [] = []" "successes [] = []" "notified [] = []"
  by (simp_all add: looked_up_def reads_def successes_def notified_def)

lemma obs_GetCoil [simp]:
  "looked_up (GetCoil a # tr) = a # looked_up tr" "reads (GetCoil a # tr) = reads tr"
  "successes (GetCoil a # tr) = successes tr" "notified (GetCoil a # tr) = notified tr"
  by (simp_all add: looked_up_def reads_def successes_def notified_def)

lemma obs_ReadCoil [simp]:
  "looked_up (ReadCoil c out # tr) = looked_up tr" "reads (ReadCoil c out # tr) = c # reads tr"
  "successes (ReadCoil c out # tr) = (case out of Inl e \<Rightarrow> [] | Inr c' \<Rightarrow> [(c, c')]) @ successes tr"
  "notified (ReadCoil c out # tr) = notified tr"
  by (simp_all add: looked_up_def reads_def successes_def notified_def split: sum.splits)

lemma obs_WriteCoil [simp]:
  "looked_up (WriteCoil c out # tr) = looked_up tr" "reads (WriteCoil c out # tr) = reads tr"
  "successes (WriteCoil c out # tr) = successes tr" "notified (WriteCoil c out # tr) = notified tr"
  by (simp_all add: looked_up_def reads_def successes_def notified_def)

lemma obs_Callback [simp]:
  "looked_up (Callback cb snap # tr) = looked_up tr" "reads (Callback cb snap # tr) = reads tr"
  "successes (Callback cb snap # tr) = successes tr" "notified (Callback cb snap # tr) = cb # notified tr"
  by (simp_all add: looked_up_def reads_def successes_def notified_def)

lemma read_coil_trace:
  "read_coil rd n c st = (out, st') \<Longrightarrow>
     \<exists>evs. trace st' = trace st @ evs \<and> looked_up evs = [] \<and> notified evs = []
       \<and> set (reads evs) \<subseteq> {c}
       \<and> successes evs = (case out of Inl e \<Rightarrow> [] | Inr c' \<Rightarrow> [(c, c')])"
proof (induction rd n c st rule: read_coil.induct)
  case (1 rd n c st)
  obtain raw s1 where r: "connection_read_coil rd c st = (raw, s1)" by fastforce
  note f = connection_read_coil_fields[OF r]
  show ?case
  proof (cases raw)
    case (Inr c')
    with 1(2) r have "out = Inr c'" "st' = s1" by (simp_all add: read_coil.simps[of rd n c st])
    with f(3) Inr show ?thesis by simp
  next
    case (Inl e)
    show ?thesis
    proof (cases "e = CoilReadException \<and> \<not> COIL_READ_RETRIES \<le> n")
      case True
      with 1(2) r Inl have "read_coil rd (n + 1) c s1 = (out, st')"
        by (simp add: read_coil.simps[of rd n c st])
      from 1(1)[OF r[symmetric] Inl _ _ this] True
      obtain evs where "trace st' = trace s1 @ evs" "looked_up evs = []" "notified evs = []"
        "set (reads evs) \<subseteq> {c}" "successes evs = (case out of Inl e \<Rightarrow> [] | Inr c' \<Rightarrow> [(c, c')])"
        by auto
      with f(3) Inl show ?thesis
        by (intro exI[of _ "ReadCoil c raw # evs"]) simp
    next
      case False
      with 1(2) r Inl have "st' = s1" "\<exists>e'. out = Inl e'"
        by (auto simp add: read_coil.simps[of rd n c st] split: if_splits)
      with f(3) Inl show ?thesis by auto
    qed
  qed
qed

lemma fetch_facts:
  assumes "fetch hp rd a st = (out, st')"
  shows "data st' = data st" "listeners st' = listeners st"
    "\<exists>evs. trace st' = trace st @ evs \<and> looked_up evs = [a] \<and> notified evs = []
       \<and> (\<forall>c\<in>set (reads evs). hp a = Inr c)
       \<and> successes evs = (case out of Inl e \<Rightarrow> [] | Inr p \<Rightarrow> [p])"
proof -
  let ?s0 = "st\<lparr>trace := trace st @ [GetCoil a]\<rparr>"
  show "data st' = data st" "listeners st' = listeners st"
    using assms read_coil_fields[of rd 1 _ ?s0]
    by (auto simp: fetch_def Let_def split: sum.splits prod.splits)
  show "\<exists>evs. trace st' = trace st @ evs \<and> looked_up evs = [a] \<and> notified evs = []
       \<and> (\<forall>c\<in>set (reads evs). hp a = Inr c)
       \<and> successes evs = (case out of Inl e \<Rightarrow> [] | Inr p \<Rightarrow> [p])"
  proof (cases "hp a")
    case (Inl e)
    with assms have "st' = ?s0" "out = Inl e" by (simp_all add: fetch_def Let_def)
    then show ?thesis by (intro exI[of _ "[GetCoil a]"]) simp
  next
    case (Inr c)
    obtain o1 s1 where r: "read_coil rd 1 c ?s0 = (o1, s1)" by fastforce
    from read_coil_trace[OF r] obtain evs where e: "trace s1 = trace ?s0 @ evs" "looked_up evs = []"
      "notified evs = []" "set (reads evs) \<subseteq> {c}"
      "successes evs = (case o1 of Inl e \<Rightarrow> [] | Inr c' \<Rightarrow> [(c, c')])" by auto
    from assms Inr r have "st' = s1" "out = (case o1 of Inl e \<Rightarrow> Inl e | Inr c' \<Rightarrow> Inr (c, c'))"
      by (auto simp: fetch_def Let_def split: sum.splits)
    with e Inr show ?thesis
      by (intro exI[of _ "GetCoil a # evs"]) (auto split: sum.splits)
  qed
qed

lemma update_one_facts:
  assumes "update_one hp rd (a, cbs) (st, res) = (out, st', res')"
  shows "listeners st' = listeners st"
    "\<exists>evs. trace st' = trace st @ evs \<and> looked_up evs = [a]
       \<and> (\<forall>c\<in>set (reads evs). hp a = Inr c)
       \<and> (out = None \<longrightarrow> notified evs = cbs)
       \<and> res' = fold upd (successes evs) res
       \<and> data st' = fold upd (successes evs) (data st)"
proof -
  obtain fo s1 where f: "fetch hp rd a st = (fo, s1)" by fastforce
  note ff = fetch_facts[OF f]
  from ff(3) obtain evs where e: "trace s1 = trace st @ evs" "looked_up evs = [a]" "notified evs = []"
     "\<forall>c\<in>set (reads evs). hp a = Inr c" "successes evs = (case fo of Inl e \<Rightarrow> [] | Inr p \<Rightarrow> [p])"
    by auto
  show "listeners st' = listeners st"
    using assms f ff(2)
    by (auto simp: update_one_def run_callbacks_eq split: sum.splits if_splits)
  show "\<exists>evs. trace st' = trace st @ evs \<and> looked_up evs = [a]
       \<and> (\<forall>c\<in>set (reads evs). hp a = Inr c)
       \<and> (out = None \<longrightarrow> notified evs = cbs)
       \<and> res' = fold upd (successes evs) res
       \<and> data st' = fold upd (successes evs) (data st)"
  proof (cases fo)
    case (Inr p)
    obtain c c' where p: "p = (c, c')" by fastforce
    let ?snap = "view (store s1) (AList.update (address c) c' (data s1))"
    from assms f Inr p have "out = None" "res' = AList.update (address c) c' res"
      "st' = s1\<lparr>data := AList.update (address c) c' (data s1), trace := trace s1 @ map (\<lambda>cb. Callback cb ?snap) cbs\<rparr>"
      by (simp_all add: update_one_def run_callbacks_eq)
    with e ff(1) Inr p show ?thesis
      by (intro exI[of _ "evs @ map (\<lambda>cb. Callback cb ?snap) cbs"]) (simp add: upd_def)
  next
    case (Inl ex)
    show ?thesis
    proof (cases "\<not> read_failed ex \<and> ex = CoilNotFoundException")
      case True
      let ?snap = "view (store s1) (data s1)"
      from assms f Inl True have "out = None" "res' = res"
        "st' = s1\<lparr>trace := trace s1 @ map (\<lambda>cb. Callback cb ?snap) cbs\<rparr>"
        by (simp_all add: update_one_def run_callbacks_eq)
      with e ff(1) Inl show ?thesis
        by (intro exI[of _ "evs @ map (\<lambda>cb. Callback cb ?snap) cbs"]) simp
    next
      case False
      with assms f Inl have "out \<noteq> None" "res' = res" "st' = s1"
        by (auto simp: update_one_def split: if_splits)
      with e ff(1) Inl show ?thesis
        by (intro exI[of _ evs]) auto
    qed
  qed
qed

lemma update_loop_append:
  "update_loop hp rd (xs @ ys) sr =
     (case update_loop hp rd xs sr of
        (None, sr') \<Rightarrow> update_loop hp rd ys sr'
      | (Some e, sr') \<Rightarrow> (Some e, sr'))"
  by (induction xs arbitrary: sr) (auto split: prod.splits option.splits)

lemma update_loop_facts:
  "update_loop hp rd items (st, res) = (out, st', res') \<Longrightarrow>
     listeners st' = listeners st \<and>
     (\<exists>evs. trace st' = trace st @ evs
       \<and> set (looked_up evs) \<subseteq> fst ` set items
       \<and> (\<forall>c\<in>set (reads evs). \<exists>a\<in>fst ` set items. hp a = Inr c)
       \<and> (out = None \<longrightarrow> looked_up evs = map fst items \<and> notified evs = concat (map snd items))
       \<and> res' = fold upd (successes evs) res
       \<and> data st' = fold upd (successes evs) (data st))"
proof (induction items arbitrary: st res)
  case Nil
  then show ?case by (intro conjI exI[of _ "[]"]) simp_all
next
  case (Cons item items)
  obtain a cbs where item: "item = (a, cbs)" by fastforce
  obtain o1 s1 r1 where u: "update_one hp rd (a, cbs) (st, res) = (o1, s1, r1)"
    using prod_cases3 by blast
  from update_one_facts[OF u] obtain e1 where e1: "listeners s1 = listeners st"
    "trace s1 = trace st @ e1" "looked_up e1 = [a]" "\<forall>c\<in>set (reads e1). hp a = Inr c"
    "o1 = None \<longrightarrow> notified e1 = cbs" "r1 = fold upd (successes e1) res"
    "data s1 = fold upd (successes e1) (data st)" by auto
  show ?case
  proof (cases o1)
    case (Some e)
    with Cons.prems item u have "out = Some e" "st' = s1" "res' = r1" by simp_all
    with e1 item show ?thesis
      by (intro conjI exI[of _ e1]) auto
  next
    case None
    with Cons.prems item u have "update_loop hp rd items (s1, r1) = (out, st', res')" by simp
    from Cons.IH[OF this] obtain e2 where e2: "listeners st' = listeners s1"
      "trace st' = trace s1 @ e2" "set (looked_up e2) \<subseteq> fst ` set items"
      "\<forall>c\<in>set (reads e2). \<exists>a\<in>fst ` set items. hp a = Inr c"
      "out = None \<longrightarrow> looked_up e2 = map fst items \<and> notified e2 = concat (map snd items)"
      "res' = fold upd (successes e2) r1" "data st' = fold upd (successes e2) (data s1)" by auto
    have "listeners st' = listeners st" using e1 e2 by simp
    moreover have "trace st' = trace st @ (e1 @ e2)" using e1 e2 by simp
    moreover have "set (looked_up (e1 @ e2)) \<subseteq> fst ` set (item # items)"
      using e1 e2 item by auto
    moreover have "\<forall>c\<in>set (reads (e1 @ e2)). \<exists>a\<in>fst ` set (item # items). hp a = Inr c"
      using e1(4) e2(4) item by auto
    moreover have "out = None \<longrightarrow> looked_up (e1 @ e2) = map fst (item # items)
        \<and> notified (e1 @ e2) = concat (map snd (item # items))"
      using e1 e2 item None by simp
    moreover have "res' = fold upd (successes (e1 @ e2)) res" using e1 e2 by simp
    moreover have "data st' = fold upd (successes (e1 @ e2)) (data st)" using e1 e2 by simp
    ultimately show ?thesis by blast
  qed
qed

lemma add_context_keys: "fst ` set (add_context cb ctx acc) = fst ` set acc \<union> set ctx"
  unfolding add_context_def
  by (induction ctx arbitrary: acc) (auto simp: AList.dom_update_with_aux)

lemma add_context_distinct: "distinct (map fst acc) \<Longrightarrow> distinct (map fst (add_context cb ctx acc))"
  unfolding add_context_def
  by (induction ctx arbitrary: acc) auto

lemma count_update_with_aux:
  "count_list (concat (map snd (AList.update_with_aux [] a (\<lambda>l. l @ [cb]) acc))) x =
     count_list (concat (map snd acc)) x + (if x = cb then 1 else 0)"
  by (induction acc) auto

lemma add_context_count:
  "count_list (concat (map snd (add_context cb ctx acc))) x =
     count_list (concat (map snd acc)) x + (if x = cb then length ctx else 0)"
  unfolding add_context_def
  by (induction ctx arbitrary: acc) (auto simp: count_update_with_aux)

lemma collect_callbacks_keys:
  "collect_callbacks ls acc = Inr cbs \<Longrightarrow>
     fst ` set cbs = fst ` set acc \<union> (\<Union>(cb, ctx)\<in>set ls. \<Union>xs\<in>set_option ctx. set xs)"
  by (induction ls acc rule: collect_callbacks.induct) (auto simp: add_context_keys)

lemma collect_callbacks_distinct:
  "collect_callbacks ls acc = Inr cbs \<Longrightarrow> distinct (map fst acc) \<Longrightarrow> distinct (map fst cbs)"
  by (induction ls acc rule: collect_callbacks.induct) (auto simp: add_context_distinct)

lemma collect_callbacks_count:
  "collect_callbacks ls acc = Inr cbs \<Longrightarrow>
     count_list (concat (map snd cbs)) x =
       count_list (concat (map snd acc)) x
       + sum_list (map (\<lambda>(cb, ctx). if cb = x then (case ctx of None \<Rightarrow> 0 | Some xs \<Rightarrow> length xs) else 0) ls)"
  by (induction ls acc rule: collect_callbacks.induct) (auto simp: add_context_count)

lemma collect_callbacks_Some:
  "collect_callbacks ls acc = Inr cbs \<Longrightarrow> (cb, ctx) \<in> set ls \<Longrightarrow> ctx \<noteq> None"
  by (induction ls acc rule: collect_callbacks.induct) auto

lemma sum_distinct_key:
  "distinct (map fst ls) \<Longrightarrow> (x, y) \<in> set ls \<Longrightarrow>
     sum_list (map (\<lambda>(k, v). if k = x then f v else 0) ls) = (f y :: nat)"
proof (induction ls)
  case Nil
  then show ?case by simp
next
  case (Cons p ls)
  have z: "x \<notin> fst ` set ls \<Longrightarrow> sum_list (map (\<lambda>(k, v). if k = x then f v else 0) ls) = 0"
    by (induction ls) (auto split: prod.splits)
  from Cons show ?case
    by (cases p) (auto simp: z image_iff split: if_splits)
qed

lemma map_of_fold_upd:
  "map_of (fold upd ps d) = map_of d ++ map_of (rev (map (\<lambda>(c, c'). (address c, c')) ps))"
proof (induction ps arbitrary: d)
  case Nil
  then show ?case by simp
next
  case (Cons p ps)
  obtain c c' where p: "p = (c, c')" by fastforce
  have "map_of (fold upd (p # ps) d) = map_of (upd p d) ++ map_of (rev (map (\<lambda>(c, c'). (address c, c')) ps))"
    by (simp add: Cons.IH)
  moreover have "map_of (upd p d) = (map_of d)(address c \<mapsto> c')"
    by (simp add: upd_def p AList.update_conv')
  ultimately show ?case
    by (simp add: p map_add_def fun_eq_iff split: option.splits)
qed

lemma map_of_view: "map_of (view sto d) k = map_option sto (map_of d k)"
  by (induction d) (auto simp: view_def)

lemma connection_write_coil_fields:
  assumes "connection_write_coil wr c st = (out, st')"
  shows "data st' = data st" "listeners st' = listeners st" "trace st' = trace st @ [WriteCoil c out]"
  using assms by (auto simp: connection_write_coil_def split: prod.splits)

lemma assign_value_fields:
  assumes "assign_value set_value c v st = Inr st1"
  shows "data st1 = data st" "listeners st1 = listeners st" "trace st1 = trace st"
  using assms by (auto simp: assign_value_def split: sum.splits)

lemma async_write_coil_returned:
  assumes "assign_value set_value c v st = Inr st1"
    and "connection_write_coil wr c st1 = (Inr c', s2)"
  shows "async_write_coil set_value wr c v st =
    (Inr (),
     if data st \<noteq> [] then
       s2\<lparr>data := AList.update (address c') c' (data st),
          trace := trace st @ WriteCoil c (Inr c')
            # map (\<lambda>cb. Callback cb (view (store s2) (AList.update (address c') c' (data st))))
                (map fst (listeners st))\<rparr>
     else s2)"
  using assms connection_write_coil_fields[OF assms(2)] assign_value_fields[OF assms(1)]
  by (simp add: async_write_coil_def async_update_listeners_def run_callbacks_eq Let_def)

lemma pair_collapse: "p = (fst p, snd p)"
  by simp

lemma async_update_data_cases:
  assumes "async_update_data hp rd st = (out, st')"
  obtains (assertion) e where "collect_callbacks (listeners st) [] = Inl e" "out = Inl e" "st' = st"
  | (looped) cbs lo res where "collect_callbacks (listeners st) [] = Inr cbs"
      "update_loop hp rd cbs (st, []) = (lo, st', res)"
      "out = (case lo of None \<Rightarrow> Inr res | Some e \<Rightarrow> Inl e)"
proof (cases "collect_callbacks (listeners st) []")
  case (Inl e)
  with assms have "out = Inl e" "st' = st" by (simp_all add: async_update_data_def)
  with Inl show ?thesis by (rule assertion)
next
  case (Inr cbs)
  obtain lo s1 res where l: "update_loop hp rd cbs (st, []) = (lo, s1, res)"
    using prod_cases3 by blast
  with assms Inr have "st' = s1" "out = (case lo of None \<Rightarrow> Inr res | Some e \<Rightarrow> Inl e)"
    by (auto simp: async_update_data_def split: option.splits)
  with Inr l show ?thesis by (intro looped[of cbs lo res]) simp_all
qed

lemma read_coil_exhausted:
  assumes "connection_read_coil rd c s0 = (Inl CoilReadException, s1)"
    and "connection_read_coil rd c s1 = (Inl CoilReadException, s2)"
    and "connection_read_coil rd c s2 = (Inl CoilReadException, s3)"
    and "connection_read_coil rd c s3 = (Inl CoilReadException, s4)"
    and "connection_read_coil rd c s4 = (Inl CoilReadException, s5)"
  shows "read_coil rd 1 c s0 = (Inl (RetryError CoilReadException), s5)"
proof -
  have 5: "read_coil rd 5 c s4 = (Inl (RetryError CoilReadException), s5)"
    using assms(5) by (simp add: read_coil.simps[of rd 5 c s4] COIL_READ_RETRIES_def)
  have 4: "read_coil rd 4 c s3 = read_coil rd 5 c s4"
    using assms(4) by (simp add: read_coil.simps[of rd 4 c s3] COIL_READ_RETRIES_def)
  have 3: "read_coil rd 3 c s2 = read_coil rd 4 c s3"
    using assms(3) by (simp add: read_coil.simps[of rd 3 c s2] COIL_READ_RETRIES_def)
  have 2: "read_coil rd 2 c s1 = read_coil rd 3 c s2"
    using assms(2) by (simp add: read_coil.simps[of rd 2 c s1] COIL_READ_RETRIES_def)
  have 1: "read_coil rd (Suc 0) c s0 = read_coil rd 2 c s1"
    using assms(1) by (simp add: read_coil.simps[of rd "Suc 0" c s0] COIL_READ_RETRIES_def numeral_2_eq_2)
  from 1 2 3 4 5 show ?thesis by simp
qed

lemma refreshed_entries_cached:
  assumes "update_loop hp rd items (st, []) = (lo, st', res)" and "map_of res k = Some v"
  shows "map_of (data st') k = Some v"
proof -
  from update_loop_facts[OF assms(1)] obtain evs where
    "res = fold upd (successes evs) []" "data st' = fold upd (successes evs) (data st)" by blast
  with assms(2) show ?thesis by (simp add: map_of_fold_upd)
qed

lemma read_coil_returned:
  "read_coil rd n c st = (Inr c', st') \<Longrightarrow>
     \<exists>evs. trace st' = trace st @ evs @ [ReadCoil c (Inr c')] \<and> notified evs = []"
proof (induction rd n c st rule: read_coil.induct)
  case (1 rd n c st)
  obtain raw s1 where r: "connection_read_coil rd c st = (raw, s1)" by fastforce
  note f = connection_read_coil_fields[OF r]
  show ?case
  proof (cases raw)
    case (Inr x)
    with 1(2) r have "x = c'" "st' = s1" by (simp_all add: read_coil.simps[of rd n c st])
    with f(3) Inr show ?thesis by (intro exI[of _ "[]"]) simp
  next
    case (Inl e)
    with 1(2) r have c: "e = CoilReadException \<and> \<not> COIL_READ_RETRIES \<le> n"
      by (auto simp add: read_coil.simps[of rd n c st] split: if_splits)
    with 1(2) r Inl have "read_coil rd (n + 1) c s1 = (Inr c', st')"
      by (simp add: read_coil.simps[of rd n c st])
    from 1(1)[OF r[symmetric] Inl _ _ this] c
    obtain evs where "trace st' = trace s1 @ evs @ [ReadCoil c (Inr c')]" "notified evs = []"
      by auto
    with f(3) Inl show ?thesis
      by (intro exI[of _ "ReadCoil c raw # evs"]) simp
  qed
qed

lemma fetch_starts:
  assumes "fetch hp rd a st = (out, st')"
  shows "\<exists>evs. trace st' = trace st @ GetCoil a # evs"
proof (cases "hp a")
  case (Inl e)
  with assms show ?thesis by (auto simp: fetch_def Let_def)
next
  case (Inr c)
  obtain o1 s1 where r: "read_coil rd 1 c (st\<lparr>trace := trace st @ [GetCoil a]\<rparr>) = (o1, s1)"
    by fastforce
  from read_coil_trace[OF r] obtain evs where "trace s1 = trace st @ GetCoil a # evs" by auto
  moreover from assms Inr r have "st' = s1" by (auto simp: fetch_def Let_def split: sum.splits)
  ultimately show ?thesis by blast
qed

lemma fetch_returned:
  assumes "fetch hp rd a st = (Inr (c, c'), s1)"
  shows "hp a = Inr c"
    "\<exists>evs. trace s1 = trace st @ GetCoil a # evs @ [ReadCoil c (Inr c')] \<and> notified evs = []"
proof -
  from assms obtain c0 where h: "hp a = Inr c0"
    by (cases "hp a") (auto simp: fetch_def Let_def)
  obtain o1 s where r: "read_coil rd 1 c0 (st\<lparr>trace := trace st @ [GetCoil a]\<rparr>) = (o1, s)"
    by fastforce
  from assms h r have e: "c0 = c" "o1 = Inr c'" "s = s1"
    by (auto simp: fetch_def Let_def split: sum.splits)
  from h e show "hp a = Inr c" by simp
  from read_coil_returned[OF r[unfolded e]]
  show "\<exists>evs. trace s1 = trace st @ GetCoil a # evs @ [ReadCoil c (Inr c')] \<and> notified evs = []"
    by auto
qed

lemma update_one_raised:
  assumes "update_one hp rd (a, cbs) (st, res) = (Some e, st', res')"
  shows "\<exists>e0. fetch hp rd a st = (Inl e0, st') \<and> res' = res"
proof -
  obtain fo s1 where f: "fetch hp rd a st = (fo, s1)" by fastforce
  with assms show ?thesis
    by (cases fo) (auto simp: update_one_def split: if_splits)
qed

lemma update_loop_aborted:
  "update_loop hp rd items sr = (Some e, st', res') \<Longrightarrow>
     \<exists>before a cbs later s e0. items = before @ (a, cbs) # later
       \<and> update_loop hp rd before sr = (None, s, res')
       \<and> fetch hp rd a s = (Inl e0, st')"
proof (induction items arbitrary: sr)
  case Nil
  then show ?case by simp
next
  case (Cons item items)
  obtain a cbs where item: "item = (a, cbs)" by fastforce
  obtain st res where sr: "sr = (st, res)" by fastforce
  obtain o1 s1 r1 where u: "update_one hp rd (a, cbs) (st, res) = (o1, s1, r1)"
    using prod_cases3 by blast
  show ?case
  proof (cases o1)
    case (Some e1)
    with Cons.prems item sr u have "e1 = e" "s1 = st'" "r1 = res'" by simp_all
    with update_one_raised[of hp rd a cbs st res e st' res'] u Some
    obtain e0 where "fetch hp rd a st = (Inl e0, st')" "res' = res" by auto
    with item sr show ?thesis
      by (intro exI[of _ "[]"] exI[of _ a] exI[of _ cbs] exI[of _ items] exI[of _ st] exI[of _ e0]) simp
  next
    case None
    with Cons.prems item sr u have "update_loop hp rd items (s1, r1) = (Some e, st', res')" by simp
    from Cons.IH[OF this] obtain before b cs later s e0 where
      i: "items = before @ (b, cs) # later" "update_loop hp rd before (s1, r1) = (None, s, res')"
       "fetch hp rd b s = (Inl e0, st')" by blast
    have "update_loop hp rd (item # before) sr = (None, s, res')"
      using i(2) u None item sr by simp
    with i(1,3) show ?thesis
      by (intro exI[of _ "item # before"] exI[of _ b] exI[of _ cs] exI[of _ later] exI[of _ s] exI[of _ e0]) simp
  qed
qed

lemma update_loop_starts:
  assumes "update_loop hp rd ((b, cs) # l) (s, r) = (lo, st', r')"
  shows "\<exists>evs. trace st' = trace s @ GetCoil b # evs"
proof -
  obtain fo s1 where f: "fetch hp rd b s = (fo, s1)" by fastforce
  from fetch_starts[OF f] obtain e1 where e1: "trace s1 = trace s @ GetCoil b # e1" by blast
  obtain o1 s2 r2 where u: "update_one hp rd (b, cs) (s, r) = (o1, s2, r2)"
    using prod_cases3 by blast
  have "\<exists>e2. trace s2 = trace s1 @ e2"
    using u f by (cases fo) (auto simp: update_one_def run_callbacks_eq split: if_splits)
  then obtain e2 where e2: "trace s2 = trace s1 @ e2" by blast
  show ?thesis
  proof (cases o1)
    case (Some e)
    with assms u have "st' = s2" by simp
    with e1 e2 show ?thesis by simp
  next
    case None
    with assms u have "update_loop hp rd l (s2, r2) = (lo, st', r')" by simp
    from update_loop_facts[OF this] obtain e3 where "trace st' = trace s2 @ e3" by blast
    with e1 e2 show ?thesis by simp
  qed
qed

lemma async_update_data_split:
  assumes "collect_callbacks (listeners st) [] = Inr (before @ item # later)"
    and "update_loop hp rd before (st, []) = (None, s, res)"
    and "update_one hp rd item (s, res) = (None, s2, res2)"
    and "update_loop hp rd later (s2, res2) = (lo, st', result)"
  shows "async_update_data hp rd st = ((case lo of None \<Rightarrow> Inr result | Some e \<Rightarrow> Inl e), st')"
proof -
  have "update_loop hp rd (before @ item # later) (st, []) = (lo, st', result)"
    by (simp add: update_loop_append assms(2,3,4))
  then show ?thesis
    by (simp add: async_update_data_def assms(1) split: option.splits)
qed

lemmas run_defs = async_update_data_def initial_def add_context_def update_one_def fetch_def
      heatpump_with_def read_coil.simps connection_read_coil_def read_failing_def coil_at_def
      COIL_READ_RETRIES_def Let_def run_callbacks_eq view_def

section \<open>The claims\<close>

subsection \<open>The addresses fetched\<close>

text \<open>
  Claim C1, as stated: in every refresh cycle the addresses that the coordinator attempts to
  fetch are exactly the union of the interest sets of the registered listeners. It fails
  on a cycle that aborts: one listener watches 10 and 20, the five reads of 10 raise
  \<^verbatim>\<open>CoilReadException\<close>, the cycle raises \<^verbatim>\<open>UpdateFailed\<close>, and 20 is never looked up
  nor read.
\<close>

theorem refresh_fetches_counterexample:
  "fst (async_update_data (heatpump_with [10, 20]) (read_failing [10]) (initial [(1, Some [10, 20])]))
     = Inl (UpdateFailed (RetryError CoilReadException))
   \<and> looked_up (trace (snd (async_update_data (heatpump_with [10, 20]) (read_failing [10]) (initial [(1, Some [10, 20])])))) = [10]
   \<and> reads (trace (snd (async_update_data (heatpump_with [10, 20]) (read_failing [10]) (initial [(1, Some [10, 20])]))))
       = [coil_at 10, coil_at 10, coil_at 10, coil_at 10, coil_at 10]
   \<and> (\<Union>(cb, ctx)\<in>set (listeners (initial [(1, Some [10, 20])])). \<Union>xs\<in>set_option ctx. set xs) = {10, 20}
   \<and> set (looked_up (trace (snd (async_update_data (heatpump_with [10, 20]) (read_failing [10]) (initial [(1, Some [10, 20])])))))
       \<noteq> (\<Union>(cb, ctx)\<in>set (listeners (initial [(1, Some [10, 20])])). \<Union>xs\<in>set_option ctx. set xs)"
  by (simp add: async_update_data_def initial_def add_context_def update_one_def fetch_def
      heatpump_with_def read_coil.simps connection_read_coil_def read_failing_def coil_at_def
      COIL_READ_RETRIES_def Let_def)

text \<open>
  Claim C1, amended. In every refresh cycle, every address that the coordinator looks up
  belongs to the union of the contexts of the listeners registered at the start of the
  cycle, and every coil it reads is the coil that the coil table gives for an address of
  that union: nothing outside the union is fetched. When the cycle returns, the set of
  addresses it has looked up is exactly that union. When the cycle raises, either the
  assertion on a context failed and nothing was fetched, or the fetch of one address
  \<open>a\<close> of the callbacks dictionary raised: then the cycle ends in the state that this
  fetch left, and the addresses looked up are those before \<open>a\<close> in the dictionary's
  order, then \<open>a\<close>, and no other.
\<close>

theorem refresh_fetches:
  assumes "async_update_data hp rd st = (out, st')"
  shows "\<exists>evs. trace st' = trace st @ evs
     \<and> set (looked_up evs) \<subseteq> (\<Union>(cb, ctx)\<in>set (listeners st). \<Union>xs\<in>set_option ctx. set xs)
     \<and> (\<forall>c\<in>set (reads evs). \<exists>a\<in>(\<Union>(cb, ctx)\<in>set (listeners st). \<Union>xs\<in>set_option ctx. set xs). hp a = Inr c)
     \<and> ((\<exists>result. out = Inr result) \<longrightarrow>
          set (looked_up evs) = (\<Union>(cb, ctx)\<in>set (listeners st). \<Union>xs\<in>set_option ctx. set xs))
     \<and> (\<forall>e. out = Inl e \<longrightarrow>
          (collect_callbacks (listeners st) [] = Inl e \<and> evs = [])
          \<or> (\<exists>before a cbs later s res e0.
                collect_callbacks (listeners st) [] = Inr (before @ (a, cbs) # later)
                \<and> update_loop hp rd before (st, []) = (None, s, res)
                \<and> fetch hp rd a s = (Inl e0, st')
                \<and> looked_up evs = map fst before @ [a]))"
  using assms
proof (cases rule: async_update_data_cases)
  case (assertion e)
  then show ?thesis by (intro exI[of _ "[]"]) simp
next
  case (looped cbs lo res)
  from collect_callbacks_keys[OF looped(1)]
  have k: "fst ` set cbs = (\<Union>(cb, ctx)\<in>set (listeners st). \<Union>xs\<in>set_option ctx. set xs)"
    by simp
  from update_loop_facts[OF looped(2)] obtain evs where e: "trace st' = trace st @ evs"
    "set (looked_up evs) \<subseteq> fst ` set cbs"
    "\<forall>c\<in>set (reads evs). \<exists>a\<in>fst ` set cbs. hp a = Inr c"
    "lo = None \<longrightarrow> looked_up evs = map fst cbs \<and> notified evs = concat (map snd cbs)"
    by blast
  have 4: "(\<exists>result. out = Inr result) \<longrightarrow> set (looked_up evs) = fst ` set cbs"
    using looped(3) e(4) by (auto split: option.splits)
  have 5: "\<forall>x. out = Inl x \<longrightarrow>
          (collect_callbacks (listeners st) [] = Inl x \<and> evs = [])
          \<or> (\<exists>before a cs later s res e0.
                collect_callbacks (listeners st) [] = Inr (before @ (a, cs) # later)
                \<and> update_loop hp rd before (st, []) = (None, s, res)
                \<and> fetch hp rd a s = (Inl e0, st')
                \<and> looked_up evs = map fst before @ [a])"
  proof (intro allI impI)
    fix x assume "out = Inl x"
    with looped(3) have lo: "lo = Some x" by (cases lo) simp_all
    from update_loop_aborted[OF looped(2)[unfolded lo]] obtain before a cs later s e0 where
      d: "cbs = before @ (a, cs) # later" "update_loop hp rd before (st, []) = (None, s, res)"
        "fetch hp rd a s = (Inl e0, st')" by blast
    from update_loop_facts[OF d(2)] obtain e1 where e1: "trace s = trace st @ e1"
      "looked_up e1 = map fst before" by blast
    from fetch_facts(3)[OF d(3)] obtain e2 where e2: "trace st' = trace s @ e2" "looked_up e2 = [a]"
      by blast
    from e(1) e1(1) e2(1) have "evs = e1 @ e2" by simp
    with e1(2) e2(2) have "looked_up evs = map fst before @ [a]" by simp
    with d looped(1) show "(collect_callbacks (listeners st) [] = Inl x \<and> evs = [])
          \<or> (\<exists>before a cs later s res e0.
                collect_callbacks (listeners st) [] = Inr (before @ (a, cs) # later)
                \<and> update_loop hp rd before (st, []) = (None, s, res)
                \<and> fetch hp rd a s = (Inl e0, st')
                \<and> looked_up evs = map fst before @ [a])"
      by blast
  qed
  note e2 = e(2)[unfolded k] and e3 = e(3)[unfolded k] and e4 = 4[unfolded k]
  show ?thesis
    by (intro exI[of _ evs] conjI) (fact e(1) e2 e3 e4 5)+
qed

theorem refresh_fetches_witness:
  "fst (async_update_data (heatpump_with [10, 30]) (read_failing []) (initial [(1, Some [10]), (2, Some [10, 20])]))
     = Inr [(10, coil_at 10)]
   \<and> set (looked_up (trace (snd (async_update_data (heatpump_with [10, 30]) (read_failing [])
        (initial [(1, Some [10]), (2, Some [10, 20])]))))) = {10, 20}
   \<and> fst (async_update_data (heatpump_with [10, 20, 30]) (read_failing [20]) (initial [(1, Some [10, 20, 30])]))
     = Inl (UpdateFailed (RetryError CoilReadException))
   \<and> collect_callbacks (listeners (initial [(1, Some [10, 20, 30])])) [] = Inr [(10, [1]), (20, [1]), (30, [1])]
   \<and> looked_up (trace (snd (async_update_data (heatpump_with [10, 20, 30]) (read_failing [20])
        (initial [(1, Some [10, 20, 30])])))) = [10, 20]"
proof -
  let ?S = "initial [(1, Some [10]), (2, Some [10, 20])]"
  let ?hp1 = "heatpump_with [10, 30]"
  let ?rd1 = "read_failing []"
  let ?R = "async_update_data ?hp1 ?rd1 ?S"
  let ?U = "\<Union>(cb, ctx)\<in>set (listeners ?S). \<Union>xs\<in>set_option ctx. set xs"
  have o: "fst ?R = Inr [(10, coil_at 10)]" by (simp add: run_defs)
  have u: "?U = {10, 20}" by (auto simp add: initial_def)
  have t: "trace ?S = []" by (simp add: initial_def)
  from refresh_fetches[OF pair_collapse[of ?R]] obtain evs where
    a1: "trace (snd ?R) = trace ?S @ evs"
    and "set (looked_up evs) \<subseteq> ?U"
    and "\<forall>c\<in>set (reads evs). \<exists>a\<in>?U. ?hp1 a = Inr c"
    and a4: "(\<exists>result. fst ?R = Inr result) \<longrightarrow> set (looked_up evs) = ?U"
    and "\<forall>e. fst ?R = Inl e \<longrightarrow>
          (collect_callbacks (listeners ?S) [] = Inl e \<and> evs = [])
          \<or> (\<exists>before a cbs later s res e0.
                collect_callbacks (listeners ?S) [] = Inr (before @ (a, cbs) # later)
                \<and> update_loop ?hp1 ?rd1 before (?S, []) = (None, s, res)
                \<and> fetch ?hp1 ?rd1 a s = (Inl e0, snd ?R)
                \<and> looked_up evs = map fst before @ [a])"
    by (elim exE conjE) (rule that)
  from a4 o have "set (looked_up evs) = ?U" by simp
  with a1 u t have 1: "set (looked_up (trace (snd ?R))) = {10, 20}" by simp
  let ?T = "initial [(1, Some [10, 20, 30])]"
  let ?hp = "heatpump_with [10, 20, 30]"
  let ?rd = "read_failing [20]"
  let ?Q = "async_update_data ?hp ?rd ?T"
  let ?V = "\<Union>(cb, ctx)\<in>set (listeners ?T). \<Union>xs\<in>set_option ctx. set xs"
  have q: "fst ?Q = Inl (UpdateFailed (RetryError CoilReadException))" by (simp add: run_defs)
  have cc: "collect_callbacks (listeners ?T) [] = Inr [(10, [1]), (20, [1]), (30, [1])]"
    by (simp add: initial_def add_context_def)
  have l: "looked_up (trace (snd ?Q)) = [10, 20]" by (simp add: run_defs)
  from o 1 q cc l show ?thesis by (intro conjI)
qed

subsection \<open>Abort after the retries\<close>

text \<open>
  Claim C2. When the callbacks dictionary is \<open>before @ (a, cbs) # later\<close>, the turns
  for \<open>before\<close> have gone through, and the five attempts to read the coil of \<open>a\<close>
  each raise \<^verbatim>\<open>CoilReadException\<close>, the cycle raises \<^verbatim>\<open>UpdateFailed\<close> (from
  \<^verbatim>\<open>RetryError\<close>) in the state that the fifth attempt left: the trace ends with the
  lookup of \<open>a\<close> and its five reads, so no address of \<open>later\<close> is looked up or
  read, and the cache is the one that the turns for \<open>before\<close> left, in which every entry
  refreshed in this cycle still has its new coil.
\<close>

theorem refresh_aborts_after_retries:
  assumes "collect_callbacks (listeners st) [] = Inr (before @ (a, cbs) # later)"
    and "update_loop hp rd before (st, []) = (None, s, res)"
    and "hp a = Inr c"
    and "connection_read_coil rd c (s\<lparr>trace := trace s @ [GetCoil a]\<rparr>) = (Inl CoilReadException, s1)"
    and "connection_read_coil rd c s1 = (Inl CoilReadException, s2)"
    and "connection_read_coil rd c s2 = (Inl CoilReadException, s3)"
    and "connection_read_coil rd c s3 = (Inl CoilReadException, s4)"
    and "connection_read_coil rd c s4 = (Inl CoilReadException, s5)"
  shows "async_update_data hp rd st = (Inl (UpdateFailed (RetryError CoilReadException)), s5)
    \<and> trace s5 = trace s @ GetCoil a # replicate 5 (ReadCoil c (Inl CoilReadException))
    \<and> data s5 = data s
    \<and> (\<forall>k v. map_of res k = Some v \<longrightarrow> map_of (data s5) k = Some v)"
proof -
  have r: "read_coil rd 1 c (s\<lparr>trace := trace s @ [GetCoil a]\<rparr>)
      = (Inl (RetryError CoilReadException), s5)"
    by (rule read_coil_exhausted[OF assms(4-8)])
  have f: "fetch hp rd a s = (Inl (RetryError CoilReadException), s5)"
    using r by (simp add: fetch_def Let_def assms(3))
  have u: "update_one hp rd (a, cbs) (s, res) = (Some (UpdateFailed (RetryError CoilReadException)), s5, res)"
    by (simp add: update_one_def f)
  have "update_loop hp rd (before @ (a, cbs) # later) (st, [])
      = (Some (UpdateFailed (RetryError CoilReadException)), s5, res)"
    by (simp add: update_loop_append assms(2) u)
  then have 1: "async_update_data hp rd st = (Inl (UpdateFailed (RetryError CoilReadException)), s5)"
    by (simp add: async_update_data_def assms(1))
  note c = connection_read_coil_fields[OF assms(4)] connection_read_coil_fields[OF assms(5)]
    connection_read_coil_fields[OF assms(6)] connection_read_coil_fields[OF assms(7)]
    connection_read_coil_fields[OF assms(8)]
  have 2: "trace s5 = trace s @ GetCoil a # replicate 5 (ReadCoil c (Inl CoilReadException))"
    using c by (simp add: numeral_eq_Suc)
  have 3: "data s5 = data s" using c by simp
  have 4: "\<forall>k v. map_of res k = Some v \<longrightarrow> map_of (data s5) k = Some v"
    using refreshed_entries_cached[OF assms(2)] 3 by simp
  from 1 2 3 4 show ?thesis by blast
qed

theorem refresh_aborts_after_retries_witness:
  "collect_callbacks (listeners (initial [(1, Some [10, 20]), (2, Some [20, 30])])) []
     = Inr ([(10, [1])] @ (20, [1, 2]) # [(30, [2])])
   \<and> fst (update_loop (heatpump_with [10, 20, 30]) (read_failing [20]) [(10, [1])]
        (initial [(1, Some [10, 20]), (2, Some [20, 30])], [])) = None
   \<and> heatpump_with [10, 20, 30] 20 = Inr (coil_at 20)
   \<and> fst (async_update_data (heatpump_with [10, 20, 30]) (read_failing [20])
        (initial [(1, Some [10, 20]), (2, Some [20, 30])]))
      = Inl (UpdateFailed (RetryError CoilReadException))
   \<and> trace (snd (async_update_data (heatpump_with [10, 20, 30]) (read_failing [20])
        (initial [(1, Some [10, 20]), (2, Some [20, 30])])))
      = [GetCoil 10, ReadCoil (coil_at 10) (Inr (coil_at 10)), Callback 1 [(10, IntV 5)], GetCoil 20,
         ReadCoil (coil_at 20) (Inl CoilReadException), ReadCoil (coil_at 20) (Inl CoilReadException),
         ReadCoil (coil_at 20) (Inl CoilReadException), ReadCoil (coil_at 20) (Inl CoilReadException),
         ReadCoil (coil_at 20) (Inl CoilReadException)]
   \<and> map_of (data (snd (async_update_data (heatpump_with [10, 20, 30]) (read_failing [20])
        (initial [(1, Some [10, 20]), (2, Some [20, 30])])))) 10 = Some (coil_at 10)"
proof -
  let ?S = "initial [(1, Some [10, 20]), (2, Some [20, 30])]"
  let ?hp = "heatpump_with [10, 20, 30]"
  let ?rd = "read_failing [20]"
  let ?L = "update_loop ?hp ?rd [(10, [1])] (?S, [])"
  have h1: "collect_callbacks (listeners ?S) [] = Inr ([(10, [1])] @ (20, [1, 2]) # [(30, [2])])"
    by (simp add: initial_def add_context_def)
  have l: "fst ?L = None" "trace (fst (snd ?L)) = [GetCoil 10, ReadCoil (coil_at 10) (Inr (coil_at 10)), Callback 1 [(10, IntV 5)]]"
    "map_of (snd (snd ?L)) 10 = Some (coil_at 10)"
    by (simp_all add: run_defs)
  define s where "s = fst (snd ?L)"
  define res where "res = snd (snd ?L)"
  from l(1) have h2: "?L = (None, s, res)"
    unfolding s_def res_def by (metis pair_collapse)
  have h3: "?hp 20 = Inr (coil_at 20)" by (simp add: heatpump_with_def)
  have rf: "\<And>s. connection_read_coil ?rd (coil_at 20) s
      = (Inl CoilReadException, snd (connection_read_coil ?rd (coil_at 20) s))"
    by (simp add: connection_read_coil_def read_failing_def coil_at_def)
  define s1 where "s1 = snd (connection_read_coil ?rd (coil_at 20) (s\<lparr>trace := trace s @ [GetCoil 20]\<rparr>))"
  define s2 where "s2 = snd (connection_read_coil ?rd (coil_at 20) s1)"
  define s3 where "s3 = snd (connection_read_coil ?rd (coil_at 20) s2)"
  define s4 where "s4 = snd (connection_read_coil ?rd (coil_at 20) s3)"
  define s5 where "s5 = snd (connection_read_coil ?rd (coil_at 20) s4)"
  note c = refresh_aborts_after_retries[OF h1 h2 h3 rf[of "s\<lparr>trace := trace s @ [GetCoil 20]\<rparr>", folded s1_def]
      rf[of s1, folded s2_def] rf[of s2, folded s3_def] rf[of s3, folded s4_def] rf[of s4, folded s5_def]]
  from c have r: "async_update_data ?hp ?rd ?S = (Inl (UpdateFailed (RetryError CoilReadException)), s5)"
    and t: "trace s5 = trace s @ GetCoil 20 # replicate 5 (ReadCoil (coil_at 20) (Inl CoilReadException))"
    and k: "map_of res 10 = Some (coil_at 10) \<longrightarrow> map_of (data s5) 10 = Some (coil_at 10)"
    by blast+
  have 1: "fst (async_update_data ?hp ?rd ?S) = Inl (UpdateFailed (RetryError CoilReadException))"
    by (simp only: r fst_conv)
  have 2: "trace (snd (async_update_data ?hp ?rd ?S))
      = [GetCoil 10, ReadCoil (coil_at 10) (Inr (coil_at 10)), Callback 1 [(10, IntV 5)], GetCoil 20,
         ReadCoil (coil_at 20) (Inl CoilReadException), ReadCoil (coil_at 20) (Inl CoilReadException),
         ReadCoil (coil_at 20) (Inl CoilReadException), ReadCoil (coil_at 20) (Inl CoilReadException),
         ReadCoil (coil_at 20) (Inl CoilReadException)]"
    using l(2) by (simp only: r snd_conv t s_def) (simp add: numeral_eq_Suc)
  have 3: "map_of (data (snd (async_update_data ?hp ?rd ?S))) 10 = Some (coil_at 10)"
    using k l(3) by (simp only: r snd_conv res_def)
  from h1 l(1) h3 1 2 3 show ?thesis by blast
qed

subsection \<open>Notifications of a cycle\<close>

text \<open>
  Claim C3, as stated: in a refresh cycle a listener is notified exactly once when at least
  one of the addresses it watches was updated, and not at all when none was. It fails on
  the scenario of the specification, with a third listener added: listeners 1, 2 and 3
  watch \<open>{10}\<close>, \<open>{10, 20}\<close> and \<open>{20}\<close>, address 10 is read and address 20 is not in
  the coil table. Only address 10 is updated, yet listener 2 is notified twice (once per
  address it watches) and listener 3 once (for the address that was skipped).
\<close>

theorem refresh_notifications_counterexample:
  "fst (async_update_data (heatpump_with [10]) (read_failing [])
      (initial [(1, Some [10]), (2, Some [10, 20]), (3, Some [20])])) = Inr [(10, coil_at 10)]
   \<and> successes (trace (snd (async_update_data (heatpump_with [10]) (read_failing [])
      (initial [(1, Some [10]), (2, Some [10, 20]), (3, Some [20])])))) = [(coil_at 10, coil_at 10)]
   \<and> notified (trace (snd (async_update_data (heatpump_with [10]) (read_failing [])
      (initial [(1, Some [10]), (2, Some [10, 20]), (3, Some [20])])))) = [1, 2, 2, 3]"
  by (simp add: run_defs)

text \<open>
  Claim C3, amended. In every refresh cycle that returns, a registered listener (the
  callbacks of the listeners being pairwise different) is notified exactly once for each
  address of its context, whether that address was read or skipped as not found: the
  number of its notifications is the number of addresses it watches.
\<close>

theorem refresh_notifications:
  assumes "async_update_data hp rd st = (Inr result, st')"
    and "distinct (map fst (listeners st))"
    and "(cb, Some ctx) \<in> set (listeners st)"
    and "distinct ctx"
  shows "\<exists>evs. trace st' = trace st @ evs \<and> count_list (notified evs) cb = card (set ctx)"
  using assms(1)
proof (cases rule: async_update_data_cases)
  case (assertion e)
  then show ?thesis by simp
next
  case (looped cbs lo res)
  from looped(3) have lo: "lo = None" by (cases lo) simp_all
  from update_loop_facts[OF looped(2)] lo obtain evs where e: "trace st' = trace st @ evs"
    "notified evs = concat (map snd cbs)" by blast
  have "count_list (concat (map snd cbs)) cb =
      sum_list (map (\<lambda>(cb', ctx). if cb' = cb then (case ctx of None \<Rightarrow> 0 | Some xs \<Rightarrow> length xs) else 0) (listeners st))"
    using collect_callbacks_count[OF looped(1), of cb] by simp
  also have "\<dots> = (case Some ctx of None \<Rightarrow> 0 | Some xs \<Rightarrow> length xs)"
    by (rule sum_distinct_key[OF assms(2,3)])
  also have "\<dots> = card (set ctx)" using assms(4) by (simp add: distinct_card)
  finally show ?thesis using e by auto
qed

theorem refresh_notifications_witness:
  "fst (async_update_data (heatpump_with [10]) (read_failing [])
      (initial [(1, Some [10]), (2, Some [10, 20])])) = Inr [(10, coil_at 10)]
   \<and> distinct (map fst (listeners (initial [(1, Some [10]), (2, Some [10, 20])])))
   \<and> (2, Some [10, 20]) \<in> set (listeners (initial [(1, Some [10]), (2, Some [10, 20])]))
   \<and> distinct [10, 20 :: int]
   \<and> count_list (notified (trace (snd (async_update_data (heatpump_with [10]) (read_failing [])
      (initial [(1, Some [10]), (2, Some [10, 20])]))))) 2 = 2"
proof -
  let ?S = "initial [(1, Some [10]), (2, Some [10, 20])]"
  let ?R = "async_update_data (heatpump_with [10]) (read_failing []) ?S"
  have o: "fst ?R = Inr [(10, coil_at 10)]" by (simp add: run_defs)
  then have o': "?R = (Inr [(10, coil_at 10)], snd ?R)" by (metis pair_collapse)
  have h: "distinct (map fst (listeners ?S))" "(2, Some [10, 20]) \<in> set (listeners ?S)"
    "distinct [10, 20 :: int]" "trace ?S = []" "card (set [10, 20 :: int]) = 2"
    by (simp_all add: initial_def)
  from refresh_notifications[OF o' h(1,2,3)] h(4,5)
  have "count_list (notified (trace (snd ?R))) 2 = 2" by auto
  with o h(1,2,3) show ?thesis by blast
qed

subsection \<open>Addresses that are not found\<close>

text \<open>
  Claim C4. In a refresh cycle whose callbacks dictionary is \<open>before @ (a, cbs) # later\<close>
  and that has gone through the turns for \<open>before\<close>, when the resolution of \<open>a\<close> raises
  \<^verbatim>\<open>CoilNotFoundException\<close> (from the lookup in the coil table or from the read): the
  turn writes no cache entry, the callbacks of \<open>a\<close> are called, and the cycle goes on
  with the addresses of \<open>later\<close>: the next of them is looked up right after, all of them
  are when none of them aborts, and the cycle returns or raises as the turns for \<open>later\<close>
  do, never on account of \<open>a\<close>.
\<close>

theorem not_found_is_skipped:
  assumes "collect_callbacks (listeners st) [] = Inr (before @ (a, cbs) # later)"
    and "update_loop hp rd before (st, []) = (None, s, res)"
    and "fetch hp rd a s = (Inl CoilNotFoundException, s1)"
    and "update_loop hp rd later (run_callbacks cbs s1, res) = (lo, st', result)"
  shows "async_update_data hp rd st = ((case lo of None \<Rightarrow> Inr result | Some e \<Rightarrow> Inl e), st')
    \<and> data (run_callbacks cbs s1) = data s
    \<and> (\<exists>evs. trace st' = trace s1 @ map (\<lambda>cb. Callback cb (view (store s1) (data s))) cbs @ evs
          \<and> set (looked_up evs) \<subseteq> fst ` set later
          \<and> (lo = None \<longrightarrow> looked_up evs = map fst later)
          \<and> (\<forall>b cs l. later = (b, cs) # l \<longrightarrow> (\<exists>evs'. evs = GetCoil b # evs')))"
proof -
  have u: "update_one hp rd (a, cbs) (s, res) = (None, run_callbacks cbs s1, res)"
    by (simp add: update_one_def assms(3))
  have 1: "async_update_data hp rd st = ((case lo of None \<Rightarrow> Inr result | Some e \<Rightarrow> Inl e), st')"
    by (rule async_update_data_split[OF assms(1,2) u assms(4)])
  have d: "data s1 = data s" by (rule fetch_facts(1)[OF assms(3)])
  then have 2: "data (run_callbacks cbs s1) = data s" by (simp add: run_callbacks_eq)
  have t: "trace (run_callbacks cbs s1) = trace s1 @ map (\<lambda>cb. Callback cb (view (store s1) (data s))) cbs"
    by (simp add: run_callbacks_eq d)
  from update_loop_facts[OF assms(4)] obtain evs where e: "trace st' = trace (run_callbacks cbs s1) @ evs"
    "set (looked_up evs) \<subseteq> fst ` set later"
    "lo = None \<longrightarrow> looked_up evs = map fst later \<and> notified evs = concat (map snd later)"
    by blast
  have 3: "trace st' = trace s1 @ map (\<lambda>cb. Callback cb (view (store s1) (data s))) cbs @ evs"
    using e(1) t by simp
  have 4: "lo = None \<longrightarrow> looked_up evs = map fst later" using e(3) by simp
  have 5: "\<forall>b cs l. later = (b, cs) # l \<longrightarrow> (\<exists>evs'. evs = GetCoil b # evs')"
  proof (intro allI impI)
    fix b cs l assume "later = (b, cs) # l"
    with assms(4) have "update_loop hp rd ((b, cs) # l) (run_callbacks cbs s1, res) = (lo, st', result)"
      by simp
    from update_loop_starts[OF this] obtain x where "trace st' = trace (run_callbacks cbs s1) @ GetCoil b # x"
      by blast
    with e(1) have "evs = GetCoil b # x" by simp
    then show "\<exists>evs'. evs = GetCoil b # evs'" by blast
  qed
  from 3 e(2) 4 5 have "\<exists>evs. trace st' = trace s1 @ map (\<lambda>cb. Callback cb (view (store s1) (data s))) cbs @ evs
          \<and> set (looked_up evs) \<subseteq> fst ` set later
          \<and> (lo = None \<longrightarrow> looked_up evs = map fst later)
          \<and> (\<forall>b cs l. later = (b, cs) # l \<longrightarrow> (\<exists>evs'. evs = GetCoil b # evs'))"
    by (intro exI[of _ evs] conjI)
  with 1 2 show ?thesis by (intro conjI)
qed

theorem not_found_is_skipped_witness:
  "collect_callbacks (listeners (refreshed [(1, Some [40, 20, 30])])) [] = Inr ([(40, [1])] @ (20, [1]) # [(30, [1])])
   \<and> fst (update_loop (heatpump_with [10, 30, 40]) (read_failing []) [(40, [1])]
        (refreshed [(1, Some [40, 20, 30])], [])) = None
   \<and> heatpump_with [10, 30, 40] 20 = Inl CoilNotFoundException
   \<and> fst (async_update_data (heatpump_with [10, 30, 40]) (read_failing []) (refreshed [(1, Some [40, 20, 30])]))
      = Inr [(40, coil_at 40), (30, coil_at 30)]
   \<and> trace (snd (async_update_data (heatpump_with [10, 30, 40]) (read_failing []) (refreshed [(1, Some [40, 20, 30])])))
      = [GetCoil 40, ReadCoil (coil_at 40) (Inr (coil_at 40)), Callback 1 [(10, IntV 5), (40, IntV 5)],
         GetCoil 20, Callback 1 [(10, IntV 5), (40, IntV 5)],
         GetCoil 30, ReadCoil (coil_at 30) (Inr (coil_at 30)), Callback 1 [(10, IntV 5), (40, IntV 5), (30, IntV 5)]]
   \<and> data (snd (async_update_data (heatpump_with [10, 30, 40]) (read_failing []) (refreshed [(1, Some [40, 20, 30])])))
      = [(10, coil_at 10), (40, coil_at 40), (30, coil_at 30)]"
proof -
  let ?S = "refreshed [(1, Some [40, 20, 30])]"
  let ?hp = "heatpump_with [10, 30, 40]"
  let ?rd = "read_failing []"
  let ?L = "update_loop ?hp ?rd [(40, [1])] (?S, [])"
  have h1: "collect_callbacks (listeners ?S) [] = Inr ([(40, [1])] @ (20, [1]) # [(30, [1])])"
    by (simp add: refreshed_def add_context_def)
  have l: "fst ?L = None" by (simp add: run_defs refreshed_def)
  define s where "s = fst (snd ?L)"
  define res where "res = snd (snd ?L)"
  from l have h2: "?L = (None, s, res)"
    unfolding s_def res_def by (metis pair_collapse)
  have sv: "s = \<lparr>data = [(10, coil_at 10), (40, coil_at 40)], listeners = [(1, Some [40, 20, 30])],
      store = (\<lambda>c. NoneV)(coil_at 10 := IntV 5, coil_at 40 := IntV 5), conn = 2,
      trace = [GetCoil 40, ReadCoil (coil_at 40) (Inr (coil_at 40)), Callback 1 [(10, IntV 5), (40, IntV 5)]]\<rparr>"
    "res = [(40, coil_at 40)]"
    unfolding s_def res_def by (simp_all add: run_defs refreshed_def)
  have nf: "?hp 20 = Inl CoilNotFoundException" by (simp add: heatpump_with_def)
  define s1 where "s1 = s\<lparr>trace := trace s @ [GetCoil 20]\<rparr>"
  have h3: "fetch ?hp ?rd 20 s = (Inl CoilNotFoundException, s1)"
    by (simp add: fetch_def nf s1_def Let_def)
  define M where "M = update_loop ?hp ?rd [(30, [1])] (run_callbacks [1] s1, res)"
  have h4: "update_loop ?hp ?rd [(30, [1])] (run_callbacks [1] s1, res) = (fst M, fst (snd M), snd (snd M))"
    unfolding M_def by simp
  note c = not_found_is_skipped[OF h1 h2 h3 h4]
  from c have r: "async_update_data ?hp ?rd ?S
      = ((case fst M of None \<Rightarrow> Inr (snd (snd M)) | Some e \<Rightarrow> Inl e), fst (snd M))"
    by (rule conjunct1)
  have m: "fst M = None" "snd (snd M) = [(40, coil_at 40), (30, coil_at 30)]"
    "trace (fst (snd M)) = [GetCoil 40, ReadCoil (coil_at 40) (Inr (coil_at 40)), Callback 1 [(10, IntV 5), (40, IntV 5)],
         GetCoil 20, Callback 1 [(10, IntV 5), (40, IntV 5)],
         GetCoil 30, ReadCoil (coil_at 30) (Inr (coil_at 30)), Callback 1 [(10, IntV 5), (40, IntV 5), (30, IntV 5)]]"
    "data (fst (snd M)) = [(10, coil_at 10), (40, coil_at 40), (30, coil_at 30)]"
    unfolding M_def s1_def sv by (simp_all add: run_defs)
  have 1: "fst (async_update_data ?hp ?rd ?S) = Inr [(40, coil_at 40), (30, coil_at 30)]"
    by (simp only: r m fst_conv option.simps)
  have 2: "trace (snd (async_update_data ?hp ?rd ?S)) = trace (fst (snd M))"
    "data (snd (async_update_data ?hp ?rd ?S)) = data (fst (snd M))"
    by (simp_all only: r snd_conv)
  from h1 l nf 1 2[unfolded m] show ?thesis by (intro conjI)
qed

subsection \<open>Cache before callbacks, and the returned dictionary\<close>

text \<open>
  Claim C5. In a refresh cycle whose callbacks dictionary is \<open>before @ (a, cbs) # later\<close>
  and that has gone through the turns for \<open>before\<close>, when the read of the coil of \<open>a\<close>
  returns: in the trace of the cycle the read that returned is followed at once by the
  calls of the callbacks of \<open>a\<close>, in their order, and each of them is called with a cache
  that already holds, at the coil's address, the value of the coil just read. And the
  dictionary that a cycle returns maps exactly the addresses of the coils whose read
  returned in that cycle, each to the coil that its last such read returned; an address
  that was skipped or not fetched is not a key of it, whatever the cache holds.
\<close>

theorem refresh_writes_then_notifies:
  "(collect_callbacks (listeners st) [] = Inr (before @ (a, cbs) # later)
      \<and> update_loop hp rd before (st, []) = (None, s, res)
      \<and> fetch hp rd a s = (Inr (c, c'), s1)
      \<and> update_loop hp rd later
            (run_callbacks cbs (s1\<lparr>data := AList.update (address c) c' (data s1)\<rparr>),
             AList.update (address c) c' res) = (lo, st', result)
    \<longrightarrow> async_update_data hp rd st = ((case lo of None \<Rightarrow> Inr result | Some e \<Rightarrow> Inl e), st')
        \<and> (\<exists>tries snap evs.
              trace st' = trace s @ GetCoil a # tries @ ReadCoil c (Inr c')
                  # map (\<lambda>cb. Callback cb snap) cbs @ evs
              \<and> notified tries = []
              \<and> snap = view (store s1) (AList.update (address c) c' (data s))
              \<and> map_of snap (address c) = Some (store s1 c')))
   \<and> (async_update_data hp rd st = (Inr result, st') \<longrightarrow>
      (\<exists>evs. trace st' = trace st @ evs
         \<and> map_of result = map_of (rev (map (\<lambda>(c, c'). (address c, c')) (successes evs)))
         \<and> fst ` set result = (\<lambda>(c, c'). address c) ` set (successes evs)))"
proof (intro conjI impI)
  assume h: "collect_callbacks (listeners st) [] = Inr (before @ (a, cbs) # later)
      \<and> update_loop hp rd before (st, []) = (None, s, res)
      \<and> fetch hp rd a s = (Inr (c, c'), s1)
      \<and> update_loop hp rd later
            (run_callbacks cbs (s1\<lparr>data := AList.update (address c) c' (data s1)\<rparr>),
             AList.update (address c) c' res) = (lo, st', result)"
  let ?s2 = "run_callbacks cbs (s1\<lparr>data := AList.update (address c) c' (data s1)\<rparr>)"
  let ?snap = "view (store s1) (AList.update (address c) c' (data s))"
  from h have h1: "collect_callbacks (listeners st) [] = Inr (before @ (a, cbs) # later)"
    and h2: "update_loop hp rd before (st, []) = (None, s, res)"
    and h3: "fetch hp rd a s = (Inr (c, c'), s1)"
    and h4: "update_loop hp rd later (?s2, AList.update (address c) c' res) = (lo, st', result)"
    by blast+
  have u: "update_one hp rd (a, cbs) (s, res) = (None, ?s2, AList.update (address c) c' res)"
    by (simp add: update_one_def h3)
  show "async_update_data hp rd st = ((case lo of None \<Rightarrow> Inr result | Some e \<Rightarrow> Inl e), st')"
    by (rule async_update_data_split[OF h1 h2 u h4])
  have d: "data s1 = data s" by (rule fetch_facts(1)[OF h3])
  from fetch_returned(2)[OF h3] obtain tries where
    t1: "trace s1 = trace s @ GetCoil a # tries @ [ReadCoil c (Inr c')]" and n: "notified tries = []"
    by blast
  have t2: "trace ?s2 = trace s1 @ map (\<lambda>cb. Callback cb ?snap) cbs"
    by (simp add: run_callbacks_eq d)
  from update_loop_facts[OF h4] obtain evs where t3: "trace st' = trace ?s2 @ evs" by blast
  have t: "trace st' = trace s @ GetCoil a # tries @ ReadCoil c (Inr c')
                  # map (\<lambda>cb. Callback cb ?snap) cbs @ evs"
    unfolding t3 t2 t1 by simp
  have m: "map_of ?snap (address c) = Some (store s1 c')"
    by (simp add: map_of_view AList.update_conv')
  from t n m show "\<exists>tries snap evs.
              trace st' = trace s @ GetCoil a # tries @ ReadCoil c (Inr c')
                  # map (\<lambda>cb. Callback cb snap) cbs @ evs
              \<and> notified tries = []
              \<and> snap = view (store s1) (AList.update (address c) c' (data s))
              \<and> map_of snap (address c) = Some (store s1 c')"
    by (intro exI[of _ tries] exI[of _ ?snap] exI[of _ evs] conjI refl)
next
  assume r: "async_update_data hp rd st = (Inr result, st')"
  from r show "\<exists>evs. trace st' = trace st @ evs
         \<and> map_of result = map_of (rev (map (\<lambda>(c, c'). (address c, c')) (successes evs)))
         \<and> fst ` set result = (\<lambda>(c, c'). address c) ` set (successes evs)"
  proof (cases rule: async_update_data_cases)
    case (assertion e)
    then show ?thesis by simp
  next
    case (looped cbs lo res)
    from looped(3) have lo: "lo = None" "res = result" by (cases lo; simp)+
    from update_loop_facts[OF looped(2)] obtain evs where e: "trace st' = trace st @ evs"
      "res = fold upd (successes evs) []" by blast
    have m: "map_of result = map_of (rev (map (\<lambda>(c, c'). (address c, c')) (successes evs)))"
      using e(2) lo(2) by (simp add: map_of_fold_upd)
    have "fst ` set result = dom (map_of result)" by (simp add: dom_map_of_conv_image_fst)
    also have "\<dots> = fst ` set (rev (map (\<lambda>(c, c'). (address c, c')) (successes evs)))"
      unfolding m by (simp only: dom_map_of_conv_image_fst)
    also have "\<dots> = (\<lambda>(c, c'). address c) ` set (successes evs)"
      by (force simp: image_iff)
    finally show ?thesis using e(1) m by blast
  qed
qed

theorem refresh_writes_then_notifies_witness:
  "collect_callbacks (listeners (refreshed [(1, Some [20]), (2, Some [20, 30])])) []
     = Inr ([] @ (20, [1, 2]) # [(30, [2])])
   \<and> fst (fetch (heatpump_with [20]) (read_failing []) 20 (refreshed [(1, Some [20]), (2, Some [20, 30])]))
     = Inr (coil_at 20, coil_at 20)
   \<and> store (snd (fetch (heatpump_with [20]) (read_failing []) 20 (refreshed [(1, Some [20]), (2, Some [20, 30])])))
        (coil_at 20) = IntV 5
   \<and> fst (async_update_data (heatpump_with [20]) (read_failing []) (refreshed [(1, Some [20]), (2, Some [20, 30])]))
      = Inr [(20, coil_at 20)]
   \<and> trace (snd (async_update_data (heatpump_with [20]) (read_failing []) (refreshed [(1, Some [20]), (2, Some [20, 30])])))
      = [GetCoil 20, ReadCoil (coil_at 20) (Inr (coil_at 20)),
         Callback 1 [(10, IntV 5), (20, IntV 5)], Callback 2 [(10, IntV 5), (20, IntV 5)],
         GetCoil 30, Callback 2 [(10, IntV 5), (20, IntV 5)]]
   \<and> successes (trace (snd (async_update_data (heatpump_with [20]) (read_failing []) (refreshed [(1, Some [20]), (2, Some [20, 30])]))))
      = [(coil_at 20, coil_at 20)]
   \<and> data (snd (async_update_data (heatpump_with [20]) (read_failing []) (refreshed [(1, Some [20]), (2, Some [20, 30])])))
      = [(10, coil_at 10), (20, coil_at 20)]"
proof -
  let ?S = "refreshed [(1, Some [20]), (2, Some [20, 30])]"
  let ?hp = "heatpump_with [20]"
  let ?rd = "read_failing []"
  let ?F = "fetch ?hp ?rd 20 ?S"
  let ?R = "async_update_data ?hp ?rd ?S"
  have h1: "collect_callbacks (listeners ?S) [] = Inr ([] @ (20, [1, 2]) # [(30, [2])])"
    by (simp add: refreshed_def add_context_def)
  have h2: "update_loop ?hp ?rd [] (?S, []) = (None, ?S, [])" by simp
  have f: "fst ?F = Inr (coil_at 20, coil_at 20)" "store (snd ?F) (coil_at 20) = IntV 5"
    by (simp_all add: run_defs refreshed_def)
  define s1 where "s1 = snd ?F"
  from f(1) have h3: "?F = (Inr (coil_at 20, coil_at 20), s1)"
    unfolding s1_def by (metis pair_collapse)
  define M where "M = update_loop ?hp ?rd [(30, [2])]
      (run_callbacks [1, 2] (s1\<lparr>data := AList.update (address (coil_at 20)) (coil_at 20) (data s1)\<rparr>),
       AList.update (address (coil_at 20)) (coil_at 20) [])"
  have h4: "update_loop ?hp ?rd [(30, [2])]
      (run_callbacks [1, 2] (s1\<lparr>data := AList.update (address (coil_at 20)) (coil_at 20) (data s1)\<rparr>),
       AList.update (address (coil_at 20)) (coil_at 20) []) = (fst M, fst (snd M), snd (snd M))"
    unfolding M_def by simp
  have sv: "s1 = \<lparr>data = [(10, coil_at 10)], listeners = [(1, Some [20]), (2, Some [20, 30])],
      store = (\<lambda>c. NoneV)(coil_at 10 := IntV 5, coil_at 20 := IntV 5), conn = 2,
      trace = [GetCoil 20, ReadCoil (coil_at 20) (Inr (coil_at 20))]\<rparr>"
    unfolding s1_def by (simp add: run_defs refreshed_def)
  have m: "fst M = None" "snd (snd M) = [(20, coil_at 20)]"
    "trace (fst (snd M)) = [GetCoil 20, ReadCoil (coil_at 20) (Inr (coil_at 20)),
         Callback 1 [(10, IntV 5), (20, IntV 5)], Callback 2 [(10, IntV 5), (20, IntV 5)],
         GetCoil 30, Callback 2 [(10, IntV 5), (20, IntV 5)]]"
    "data (fst (snd M)) = [(10, coil_at 10), (20, coil_at 20)]"
    unfolding M_def sv by (simp_all add: run_defs)
  note t = refresh_writes_then_notifies[of ?S "[]" 20 "[1, 2]" "[(30, [2])]" ?hp ?rd ?S "[]"
      "coil_at 20" "coil_at 20" s1 "fst M" "fst (snd M)" "snd (snd M)"]
  from t h1 h2 h3 h4 have e: "?R
      = ((case fst M of None \<Rightarrow> Inr (snd (snd M)) | Some e \<Rightarrow> Inl e), fst (snd M))"
    by blast
  have 1: "fst ?R = Inr [(20, coil_at 20)]"
    by (simp only: e m fst_conv option.simps)
  have 2: "trace (snd ?R) = trace (fst (snd M))" "data (snd ?R) = data (fst (snd M))"
    by (simp_all only: e snd_conv)
  have 3: "successes (trace (snd ?R)) = [(coil_at 20, coil_at 20)]"
    unfolding 2 m by simp
  from h1 f 1 2(1)[unfolded m] 3 2(2)[unfolded m] show ?thesis by (intro conjI)
qed

subsection \<open>A write notifies when the cache is not empty\<close>



subsection \<open>Write, then read\<close>

text \<open>
  Claim C7, as stated: a write of a value that returns, followed at once by a cache read for
  the same address, gives the value written. It fails in two ways. On a coordinator whose
  cache is still empty, the write of 7 to address 10 returns, nothing is stored, and the
  read gives \<^verbatim>\<open>None\<close>. On a cache that is not empty, the write of the string
  \<^verbatim>\<open>on\<close> to a coil with mappings returns, and the read gives \<^verbatim>\<open>ON\<close>, the value
  that the coil's setter stored.
\<close>

theorem write_then_read_counterexample:
  "fst (async_write_coil setter_numeric write_ok (coil_at 10) (IntV 7) (initial [(1, Some [10])])) = Inr ()
   \<and> get_coil_value (snd (async_write_coil setter_numeric write_ok (coil_at 10) (IntV 7) (initial [(1, Some [10])])))
        (coil_at 10) = NoneV
   \<and> fst (async_write_coil setter_mapped write_ok (coil_at 10) (StrV ''on'') (refreshed [(1, Some [10])])) = Inr ()
   \<and> get_coil_value (snd (async_write_coil setter_mapped write_ok (coil_at 10) (StrV ''on'') (refreshed [(1, Some [10])])))
        (coil_at 10) = StrV ''ON''"
  by (simp add: async_write_coil_def assign_value_def connection_write_coil_def write_ok_def
      initial_def refreshed_def setter_numeric_def setter_mapped_def async_update_listeners_def
      run_callbacks_eq get_coil_value_def coil_at_def Let_def)

text \<open>
  Claim C7, amended. When the setter of the coil accepts the value, and the write returns a
  coil \<open>c'\<close>: if the cache held at least one entry when the write was made, a cache read
  for the address of \<open>c'\<close> made right after the call gives the value that \<open>c'\<close> holds
  when the write returns; so when the write path returns the very coil it was passed and
  has left its value alone, a read for the address written gives the value as the setter
  stored it. If the cache was empty, nothing is stored and every cache read gives
  \<^verbatim>\<open>None\<close>.
\<close>

theorem write_then_read:
  assumes "assign_value set_value c v st = Inr st1"
    and "connection_write_coil wr c st1 = (Inr c', s2)"
    and "async_write_coil set_value wr c v st = (out, st')"
  shows "out = Inr ()
    \<and> (data st \<noteq> [] \<longrightarrow> (\<forall>p. address p = address c' \<longrightarrow> get_coil_value st' p = store s2 c'))
    \<and> (data st \<noteq> [] \<and> c' = c \<and> store s2 c = store st1 c \<longrightarrow>
         (\<forall>p. address p = address c \<longrightarrow> get_coil_value st' p = store st1 c))
    \<and> (data st = [] \<longrightarrow> (\<forall>p. get_coil_value st' p = NoneV))"
  using assms(3) async_write_coil_returned[OF assms(1,2)] connection_write_coil_fields[OF assms(2)]
    assign_value_fields[OF assms(1)]
  by (auto simp: get_coil_value_def AList.update_conv')

theorem write_then_read_witness:
  "setter_mapped (coil_at 10) (StrV ''on'') = Inr (StrV ''ON'')
   \<and> fst (connection_write_coil write_ok (coil_at 10)
      ((refreshed [])\<lparr>store := (store (refreshed []))(coil_at 10 := StrV ''ON'')\<rparr>)) = Inr (coil_at 10)
   \<and> store (snd (connection_write_coil write_ok (coil_at 10)
      ((refreshed [])\<lparr>store := (store (refreshed []))(coil_at 10 := StrV ''ON'')\<rparr>))) (coil_at 10) = StrV ''ON''
   \<and> data (refreshed []) \<noteq> []
   \<and> get_coil_value (refreshed []) (coil_at 10) = IntV 5
   \<and> get_coil_value (snd (async_write_coil setter_mapped write_ok (coil_at 10) (StrV ''on'') (refreshed [])))
        (coil_at 10) = StrV ''ON''
   \<and> setter_numeric (coil_at 10) (IntV 7) = Inr (IntV 7)
   \<and> fst (connection_write_coil write_ok (coil_at 10)
      ((initial [])\<lparr>store := (store (initial []))(coil_at 10 := IntV 7)\<rparr>)) = Inr (coil_at 10)
   \<and> data (initial []) = []
   \<and> get_coil_value (snd (async_write_coil setter_numeric write_ok (coil_at 10) (IntV 7) (initial [])))
        (coil_at 10) = NoneV"
proof -
  let ?s = "refreshed [] :: nat state"
  let ?w = "connection_write_coil write_ok (coil_at 10) (?s\<lparr>store := (store ?s)(coil_at 10 := StrV ''ON'')\<rparr>)"
  let ?r = "async_write_coil setter_mapped write_ok (coil_at 10) (StrV ''on'') ?s"
  have sv: "setter_mapped (coil_at 10) (StrV ''on'') = Inr (StrV ''ON'')"
    by (simp add: setter_mapped_def)
  then have av: "assign_value setter_mapped (coil_at 10) (StrV ''on'') ?s
      = Inr (?s\<lparr>store := (store ?s)(coil_at 10 := StrV ''ON'')\<rparr>)"
    by (simp add: assign_value_def)
  have h: "fst ?w = Inr (coil_at 10)" "store (snd ?w) (coil_at 10) = StrV ''ON''"
    by (simp_all add: connection_write_coil_def write_ok_def)
  then have h': "?w = (Inr (coil_at 10), snd ?w)"
    by (metis pair_collapse)
  have d: "data ?s \<noteq> []" "get_coil_value ?s (coil_at 10) = IntV 5"
    by (simp_all add: refreshed_def get_coil_value_def coil_at_def)
  have k: "store (?s\<lparr>store := (store ?s)(coil_at 10 := StrV ''ON'')\<rparr>) (coil_at 10) = StrV ''ON''"
    by simp
  from write_then_read[OF av h' pair_collapse[of ?r]] d(1) h(2) k
  have 1: "get_coil_value (snd ?r) (coil_at 10) = StrV ''ON''" by metis
  let ?s0 = "initial [] :: nat state"
  let ?w0 = "connection_write_coil write_ok (coil_at 10) (?s0\<lparr>store := (store ?s0)(coil_at 10 := IntV 7)\<rparr>)"
  let ?r0 = "async_write_coil setter_numeric write_ok (coil_at 10) (IntV 7) ?s0"
  have sv0: "setter_numeric (coil_at 10) (IntV 7) = Inr (IntV 7)"
    by (simp add: setter_numeric_def)
  then have av0: "assign_value setter_numeric (coil_at 10) (IntV 7) ?s0
      = Inr (?s0\<lparr>store := (store ?s0)(coil_at 10 := IntV 7)\<rparr>)"
    by (simp add: assign_value_def)
  have h0: "fst ?w0 = Inr (coil_at 10)"
    by (simp add: connection_write_coil_def write_ok_def)
  then have h0': "?w0 = (Inr (coil_at 10), snd ?w0)"
    by (metis pair_collapse)
  have d0: "data ?s0 = []" by (simp add: initial_def)
  from write_then_read[OF av0 h0' pair_collapse[of ?r0]] d0
  have 2: "get_coil_value (snd ?r0) (coil_at 10) = NoneV" by blast
  from sv h d 1 sv0 h0 d0 2 show ?thesis by blast
qed

subsection \<open>A write that raises\<close>

text \<open>
  Claim C8. A write that raises at the data source propagates at once with no retry, calls
  no callback and leaves every entry of the cache as it was. The code stores the returned
  coil in \<^verbatim>\<open>self.data\<close> only after the write has returned, but it assigns the value
  to the coil object before the write is sent, and that object is the one the cache holds
  when an entity writes after an update (\<^verbatim>\<open>_handle_coordinator_update\<close> has rebound its
  reference to the cached coil). Evaluated there: the cache holds the coil of address 10
  with value 5, the entity writes 7, the write raises; the exception propagates after the
  single attempt, no callback is called and the dictionary binds the same object, but the
  cache now reads 7 at address 10.
\<close>

theorem failed_write_changes_cached_value:
  "handle_coordinator_update (refreshed [(1, Some [10])]) \<lparr>oid = 7, address = 10\<rparr> = coil_at 10
   \<and> fst (entity_async_write_coil setter_numeric write_failing
        (handle_coordinator_update (refreshed [(1, Some [10])]) \<lparr>oid = 7, address = 10\<rparr>)
        (IntV 7) (refreshed [(1, Some [10])]))
     = Inl (OtherError ''CoilWriteException'')
   \<and> trace (snd (entity_async_write_coil setter_numeric write_failing
        (handle_coordinator_update (refreshed [(1, Some [10])]) \<lparr>oid = 7, address = 10\<rparr>)
        (IntV 7) (refreshed [(1, Some [10])])))
     = [WriteCoil (coil_at 10) (Inl (OtherError ''CoilWriteException''))]
   \<and> data (refreshed [(1, Some [10])]) = [(10, coil_at 10)]
   \<and> data (snd (entity_async_write_coil setter_numeric write_failing
        (handle_coordinator_update (refreshed [(1, Some [10])]) \<lparr>oid = 7, address = 10\<rparr>)
        (IntV 7) (refreshed [(1, Some [10])])))
     = [(10, coil_at 10)]
   \<and> get_coil_value (refreshed [(1, Some [10])]) (coil_at 10) = IntV 5
   \<and> get_coil_value (snd (entity_async_write_coil setter_numeric write_failing
        (handle_coordinator_update (refreshed [(1, Some [10])]) \<lparr>oid = 7, address = 10\<rparr>)
        (IntV 7) (refreshed [(1, Some [10])]))) (coil_at 10)
     = IntV 7"
  by (simp add: handle_coordinator_update_def entity_async_write_coil_def async_write_coil_def
      assign_value_def connection_write_coil_def write_failing_def setter_numeric_def
      refreshed_def coil_at_def get_coil_value_def Let_def)

subsection \<open>A write notifies every listener\<close>

text \<open>
  Claim C9. When the write returns and the cache is not empty, the callback of every
  registered listener is called, once each and in registration order, whatever its
  context: the listeners that do not watch the address written are notified as well.
\<close>

theorem write_notifies_every_listener:
  assumes "assign_value set_value c v st = Inr st1"
    and "connection_write_coil wr c st1 = (Inr c', s2)"
    and "data st \<noteq> []"
    and "async_write_coil set_value wr c v st = (out, st')"
  shows "\<exists>evs. trace st' = trace st @ evs \<and> notified evs = map fst (listeners st)"
proof -
  define evs where "evs = WriteCoil c (Inr c')
            # map (\<lambda>cb. Callback cb (view (store s2) (AList.update (address c') c' (data st))))
                (map fst (listeners st))"
  from assms async_write_coil_returned[OF assms(1,2)]
  have "trace st' = trace st @ evs" by (auto simp: evs_def)
  moreover have "notified evs = map fst (listeners st)" by (simp add: evs_def del: map_map)
  ultimately show ?thesis by blast
qed

theorem write_notifies_every_listener_witness:
  "setter_numeric (coil_at 10) (IntV 7) = Inr (IntV 7)
   \<and> fst (connection_write_coil write_ok (coil_at 10)
      ((refreshed [(1, Some [10]), (2, Some [20])])\<lparr>store := (store (refreshed [(1, Some [10]), (2, Some [20])]))(coil_at 10 := IntV 7)\<rparr>))
      = Inr (coil_at 10)
   \<and> data (refreshed [(1, Some [10]), (2, Some [20])]) \<noteq> []
   \<and> notified (trace (snd (async_write_coil setter_numeric write_ok (coil_at 10) (IntV 7) (refreshed [(1, Some [10]), (2, Some [20])])))) = [1, 2]"
proof -
  let ?s = "refreshed [(1, Some [10]), (2, Some [20])]"
  let ?w = "connection_write_coil write_ok (coil_at 10) (?s\<lparr>store := (store ?s)(coil_at 10 := IntV 7)\<rparr>)"
  let ?r = "async_write_coil setter_numeric write_ok (coil_at 10) (IntV 7) ?s"
  have sv: "setter_numeric (coil_at 10) (IntV 7) = Inr (IntV 7)"
    by (simp add: setter_numeric_def)
  then have av: "\<And>s :: nat state. assign_value setter_numeric (coil_at 10) (IntV 7) s
      = Inr (s\<lparr>store := (store s)(coil_at 10 := IntV 7)\<rparr>)"
    by (simp add: assign_value_def)
  have h: "fst ?w = Inr (coil_at 10)"
    by (simp add: connection_write_coil_def write_ok_def)
  then have h': "?w = (Inr (coil_at 10), snd ?w)"
    by (metis pair_collapse)
  have d: "data ?s \<noteq> []" "trace ?s = []" "map fst (listeners ?s) = [1, 2]"
    by (simp_all add: refreshed_def)
  from write_notifies_every_listener[OF av h' d(1) pair_collapse[of ?r]] d(2,3)
  have "notified (trace (snd ?r)) = [1, 2]" by auto
  with sv h d(1) show ?thesis by simp
qed

subsection \<open>Reading a float\<close>

text \<open>
  Claim C10. \<^verbatim>\<open>get_coil_float\<close> returns \<^verbatim>\<open>None\<close> when the address has no cache
  entry and when the cached value is the int 0, the float 0.0 or the float -0.0; when it
  returns a float, the address has a cache entry whose value is truthy, and the float is
  \<^verbatim>\<open>float\<close> of that value.
\<close>

theorem get_coil_float_zero_is_None:
  "(map_of (data st) (address c) = None \<longrightarrow> get_coil_float py_float st c = Inr None)
   \<and> (map_of (data st) (address c) = Some c' \<and> store st c' \<in> {IntV 0, FloatV 0, FloatV (push_bit 63 1)}
        \<longrightarrow> get_coil_float py_float st c = Inr None)
   \<and> (get_coil_float py_float st c = Inr (Some x)
        \<longrightarrow> (\<exists>c'. map_of (data st) (address c) = Some c' \<and> truthy (store st c')
              \<and> py_float (store st c') = Inr x))"
  by (auto simp: get_coil_float_def get_coil_value_def Let_def split: option.splits sum.splits if_splits)

theorem get_coil_float_zero_is_None_witness:
  "map_of (data (initial [])) (address (coil_at 10)) = None
   \<and> get_coil_float float_of_five (initial []) (coil_at 10) = Inr None
   \<and> map_of (data ((refreshed [])\<lparr>store := (\<lambda>c. FloatV 0)\<rparr>)) (address (coil_at 10)) = Some (coil_at 10)
   \<and> store ((refreshed [])\<lparr>store := (\<lambda>c. FloatV 0)\<rparr>) (coil_at 10) = FloatV 0
   \<and> get_coil_float float_of_five ((refreshed [])\<lparr>store := (\<lambda>c. FloatV 0)\<rparr>) (coil_at 10) = Inr None
   \<and> get_coil_float float_of_five (refreshed []) (coil_at 10) = Inr (Some 0x4014000000000000)
   \<and> map_of (data (refreshed [])) (address (coil_at 10)) = Some (coil_at 10)
   \<and> truthy (store (refreshed []) (coil_at 10))"
proof -
  let ?a = "initial [] :: nat state"
  let ?b = "(refreshed [])\<lparr>store := (\<lambda>c. FloatV 0)\<rparr> :: nat state"
  let ?c = "refreshed [] :: nat state"
  have a: "map_of (data ?a) (address (coil_at 10)) = None" by (simp add: initial_def)
  have b: "map_of (data ?b) (address (coil_at 10)) = Some (coil_at 10)" "store ?b (coil_at 10) = FloatV 0"
    by (simp_all add: refreshed_def coil_at_def)
  have c: "get_coil_float float_of_five ?c (coil_at 10) = Inr (Some 0x4014000000000000)"
    by (simp add: get_coil_float_def get_coil_value_def float_of_five_def refreshed_def coil_at_def)
  from get_coil_float_zero_is_None[of ?a "coil_at 10" float_of_five] a
  have a': "get_coil_float float_of_five ?a (coil_at 10) = Inr None" by blast
  from get_coil_float_zero_is_None[of ?b "coil_at 10" float_of_five "coil_at 10"] b
  have b': "get_coil_float float_of_five ?b (coil_at 10) = Inr None" by simp
  from get_coil_float_zero_is_None[of ?c "coil_at 10" float_of_five _ "0x4014000000000000"] c
  obtain c' where "map_of (data ?c) (address (coil_at 10)) = Some c'" "truthy (store ?c c')"
    by blast
  moreover have "map_of (data ?c) (address (coil_at 10)) = Some (coil_at 10)"
    by (simp add: refreshed_def coil_at_def)
  ultimately have c': "map_of (data ?c) (address (coil_at 10)) = Some (coil_at 10)"
    "truthy (store ?c (coil_at 10))" by simp_all
  from a a' b b' c c' show ?thesis by blast
qed

end
